theory Spec2Isabelle
  imports Complex_Main "HOL-Library.Sublist" "HOL-Library.Word"
begin

section \<open>Python strings\<close>

text \<open>
  A Python \<open>str\<close> is modelled as a HOL \<open>string\<close> holding ASCII text: one \<open>char\<close> per
  code point, so that \<open>len\<close> is \<open>length\<close> and \<open>text.encode()\<close> (UTF-8) is the list of
  the characters' codes. Non-ASCII text is outside the model.
\<close>

definition lower_char :: "char \<Rightarrow> char" where
  "lower_char c =
     (case map_of (zip ''ABCDEFGHIJKLMNOPQRSTUVWXYZ'' ''abcdefghijklmnopqrstuvwxyz'') c of
        Some l \<Rightarrow> l
      | None \<Rightarrow> c)"

text \<open>\<open>s.lower()\<close>\<close>

definition lower :: "string \<Rightarrow> string" where
  "lower s = map lower_char s"

text \<open>The ASCII characters for which \<open>str.isspace()\<close> holds.\<close>

definition is_space :: "char \<Rightarrow> bool" where
  "is_space c = (let n = (of_char c :: nat) in (9 \<le> n \<and> n \<le> 13) \<or> (28 \<le> n \<and> n \<le> 32))"

text \<open>
  \<open>s.split()\<close> without arguments: the maximal runs of non-whitespace characters, in
  order; \<open>acc\<close> is the word being read.
\<close>

fun split_words :: "string \<Rightarrow> string \<Rightarrow> string list" where
  "split_words acc [] = (if acc = [] then [] else [acc])"
| "split_words acc (c # cs) =
     (if is_space c
      then (if acc = [] then split_words [] cs else acc # split_words [] cs)
      else split_words (acc @ [c]) cs)"

definition split_ws :: "string \<Rightarrow> string list" where
  "split_ws s = split_words [] s"

text \<open>
  \<open>s.split('. ')\<close>: the pieces of \<open>s\<close> between the non-overlapping occurrences of the
  separator, found from the left; \<open>acc\<close> is the piece being read. There is always at
  least one piece.
\<close>

fun split_dot :: "string \<Rightarrow> string \<Rightarrow> string list" where
  "split_dot acc (c # d # cs) =
     (if c = CHR ''.'' \<and> d = CHR '' '' then acc # split_dot [] cs
      else split_dot (acc @ [c]) (d # cs))"
| "split_dot acc cs = [acc @ cs]"

definition split_sentences :: "string \<Rightarrow> string list" where
  "split_sentences text = split_dot [] text"

text \<open>\<open>str(n)\<close> for a non-negative integer.\<close>

definition digit_char :: "nat \<Rightarrow> char" where
  "digit_char n = ''0123456789'' ! (n mod 10)"

fun str_nat :: "nat \<Rightarrow> string" where
  "str_nat n = (if n < 10 then [digit_char n] else str_nat (n div 10) @ [digit_char n])"

declare str_nat.simps [simp del]

section \<open>Chunking\<close>

text \<open>
  The sentence splitter of \<open>add_documents\<close>, used when
  \<open>RecursiveCharacterTextSplitter\<close> could not be imported. One step of the inner loop,
  on the pair \<open>(current_chunk, chunks)\<close>:
\<close>

definition add_sentence :: "string \<times> string list \<Rightarrow> string \<Rightarrow> string \<times> string list" where
  "add_sentence st sentence =
     (case st of (current_chunk, chunks) \<Rightarrow>
        if length current_chunk + length sentence < 500
        then (current_chunk @ sentence @ ''. '', chunks)
        else (sentence @ ''. '',
              if current_chunk \<noteq> [] then chunks @ [current_chunk] else chunks))"

text \<open>The body of the outer loop: one text, appended to the chunks found so far.\<close>

definition split_text_fallback :: "string list \<Rightarrow> string \<Rightarrow> string list" where
  "split_text_fallback chunks text =
     (case foldl add_sentence ([], chunks) (split_sentences text) of
        (current_chunk, chunks') \<Rightarrow>
          if current_chunk \<noteq> [] then chunks' @ [current_chunk] else chunks')"

definition fallback_chunks :: "string list \<Rightarrow> string list" where
  "fallback_chunks texts = foldl split_text_fallback [] texts"

section \<open>Python sequences\<close>

datatype error = IndexError | IndexAddError | IndexSearchError

text \<open>\<open>xs[:k]\<close> for an integer \<open>k\<close>: a negative \<open>k\<close> drops the last \<open>-k\<close> elements.\<close>

definition slice_to :: "int \<Rightarrow> 'a list \<Rightarrow> 'a list" where
  "slice_to k xs = (if 0 \<le> k then take (nat k) xs else take (length xs - nat (- k)) xs)"

text \<open>\<open>xs[i]\<close>: a negative index counts from the end, an index out of range raises.\<close>

definition py_nth :: "'a list \<Rightarrow> int \<Rightarrow> error + 'a" where
  "py_nth xs i =
     (if 0 \<le> i \<and> i < int (length xs) then Inr (xs ! nat i)
      else if i < 0 \<and> - int (length xs) \<le> i then Inr (xs ! nat (int (length xs) + i))
      else Inl IndexError)"

text \<open>\<open>bs * n\<close> on a byte string: no copy at all when \<open>n \<le> 0\<close>.\<close>

definition bytes_mul :: "'a list \<Rightarrow> int \<Rightarrow> 'a list" where
  "bytes_mul bs n = concat (replicate (nat n) bs)"

section \<open>The store and its environment\<close>

type_synonym byte = "8 word"

text \<open>
  A float is modelled by the real number it holds. The float32 operations of NumPy
  round, so they are parameters of the model (fields of \<open>env\<close> below), as are SHA-256,
  the remote embedding provider, the LangChain splitter and the FAISS index operations:
  none of them is code of this repository.
\<close>

record faiss_index =
  index_d :: nat
  index_xb :: "real list list"

text \<open>\<open>None\<close> is a call that raised.\<close>

record embedder =
  aembed_documents :: "string list \<Rightarrow> real list list option"
  aembed_query :: "string \<Rightarrow> real list option"

record env =
  FAISS_AVAILABLE :: bool
  EMBEDDINGS_AVAILABLE :: bool
  embeddings :: "embedder option"
  text_splitter :: "(string \<Rightarrow> string list) option"
  sha256 :: "byte list \<Rightarrow> byte list"
  linalg_norm :: "real list \<Rightarrow> real"
  f32_div :: "real \<Rightarrow> real \<Rightarrow> real"
  f32 :: "real \<Rightarrow> real"
  index_add :: "faiss_index \<Rightarrow> real list list \<Rightarrow> faiss_index option"
  index_search :: "faiss_index \<Rightarrow> real list \<Rightarrow> int \<Rightarrow> (real \<times> int) list option"

text \<open>
  \<open>sha256\<close> is \<open>hashlib.sha256(bs).digest()\<close>; \<open>linalg_norm\<close> is \<open>np.linalg.norm\<close> on a
  float32 array, \<open>f32_div\<close> the float32 division, \<open>f32\<close> the rounding of
  \<open>astype('float32')\<close>; \<open>index_add\<close> is \<open>index.add(array)\<close> and \<open>index_search\<close> is
  \<open>index.search(query, k)\<close>, giving the (distance, label) pairs of the one query row.
  \<open>embeddings\<close> is \<open>self.embeddings\<close>, fixed when the object is built.
\<close>

record doc =
  doc_id :: string
  content :: string
  source :: string
  vector :: "real list option"

record rag =
  index :: "faiss_index option"
  metadata :: "doc list"

text \<open>A search result; only the results of the FAISS branch carry an \<open>id\<close>.\<close>

record result =
  res_id :: "string option"
  res_content :: string
  res_source :: string
  score :: real

text \<open>
  The two files of a user: each is absent, present but unreadable (reading raises), or
  holds what was written.
\<close>

datatype 'a on_disk = Missing | Corrupt | Stored 'a

record disk =
  index_file :: "faiss_index on_disk"
  metadata_file :: "doc list on_disk"

section \<open>The deterministic embedding\<close>

definition encode :: "string \<Rightarrow> byte list" where
  "encode text = map of_char text"

text \<open>\<open>_text_to_vector\<close>\<close>

definition text_to_vector :: "env \<Rightarrow> string \<Rightarrow> int \<Rightarrow> real list" where
  "text_to_vector e text dimension =
     (let hash_bytes = sha256 e (encode text);
          repeated = bytes_mul hash_bytes (dimension div int (length hash_bytes) + 1);
          vec = map (\<lambda>b. real (unat b)) (slice_to dimension repeated);
          norm = linalg_norm e vec
      in if norm > 0 then map (\<lambda>x. f32_div e x norm) vec else vec)"

section \<open>Persistence\<close>

text \<open>
  \<open>load_index\<close>: any exception while reading resets the object to the empty state.
\<close>

definition load_index :: "env \<Rightarrow> disk \<Rightarrow> rag \<Rightarrow> rag" where
  "load_index e fs S =
     (let empty = S\<lparr>index := None, metadata := []\<rparr> in
      case (if FAISS_AVAILABLE e
            then (case index_file fs of
                    Missing \<Rightarrow> Some S
                  | Corrupt \<Rightarrow> None
                  | Stored i \<Rightarrow> Some (S\<lparr>index := Some i\<rparr>))
            else Some S) of
        None \<Rightarrow> empty
      | Some S1 \<Rightarrow>
          (case metadata_file fs of
             Missing \<Rightarrow> S1
           | Corrupt \<Rightarrow> empty
           | Stored m \<Rightarrow> S1\<lparr>metadata := m\<rparr>))"

text \<open>\<open>__init__\<close>: the fields are set to the empty state, then \<open>load_index\<close> runs.\<close>

definition init :: "env \<Rightarrow> disk \<Rightarrow> rag" where
  "init e fs = load_index e fs \<lparr>index = None, metadata = []\<rparr>"

definition save_index :: "env \<Rightarrow> rag \<Rightarrow> disk \<Rightarrow> disk" where
  "save_index e S fs =
     (case (if FAISS_AVAILABLE e then index S else None) of
        Some i \<Rightarrow> fs\<lparr>index_file := Stored i, metadata_file := Stored (metadata S)\<rparr>
      | None \<Rightarrow> fs\<lparr>metadata_file := Stored (metadata S)\<rparr>)"

section \<open>Adding documents\<close>

definition split_chunks :: "env \<Rightarrow> string list \<Rightarrow> string list" where
  "split_chunks e texts =
     (case text_splitter e of
        Some split_text \<Rightarrow> concat (map split_text texts)
      | None \<Rightarrow> fallback_chunks texts)"

definition fallback_embeddings :: "env \<Rightarrow> string list \<Rightarrow> real list list" where
  "fallback_embeddings e chunks =
     map (map (f32 e)) (map (\<lambda>chunk. text_to_vector e chunk 384) chunks)"

text \<open>\<open>np.array\<close> builds a two-dimensional array only from rows of one length.\<close>

definition rectangular :: "'a list list \<Rightarrow> bool" where
  "rectangular rows = (case rows of [] \<Rightarrow> True | r # rs \<Rightarrow> list_all (\<lambda>x. length x = length r) rs)"

text \<open>
  The array \<open>embeddings_array\<close>, as the list of its rows. A failure of the provider or of
  \<open>np.array(...).astype('float32')\<close> is caught and the deterministic vectors are used.
\<close>

definition embed_chunks :: "env \<Rightarrow> string list \<Rightarrow> real list list" where
  "embed_chunks e chunks =
     (case (if EMBEDDINGS_AVAILABLE e then embeddings e else None) of
        Some emb \<Rightarrow>
          (case aembed_documents emb chunks of
             Some vs \<Rightarrow>
               if rectangular vs then map (map (f32 e)) vs else fallback_embeddings e chunks
           | None \<Rightarrow> fallback_embeddings e chunks)
      | None \<Rightarrow> fallback_embeddings e chunks)"

text \<open>
  The FAISS step. A new index takes its dimension from \<open>embeddings_array.shape[1]\<close>,
  which raises on an array without rows; the new index is assigned to \<open>self.index\<close>
  before \<open>add\<close> runs.
\<close>

definition update_index :: "env \<Rightarrow> real list list \<Rightarrow> rag \<Rightarrow> error option \<times> rag" where
  "update_index e arr S =
     (if FAISS_AVAILABLE e then
        (case (case index S of
                 Some i \<Rightarrow> Inr i
               | None \<Rightarrow>
                   (case arr of
                      [] \<Rightarrow> Inl IndexError
                    | row # _ \<Rightarrow> Inr \<lparr>index_d = length row, index_xb = []\<rparr>)) of
           Inl err \<Rightarrow> (Some err, S)
         | Inr i \<Rightarrow>
             (case index_add e i arr of
                None \<Rightarrow> (Some IndexAddError, S\<lparr>index := Some i\<rparr>)
              | Some i' \<Rightarrow> (None, S\<lparr>index := Some i'\<rparr>)))
      else (None, S))"

text \<open>
  The metadata loop, from position \<open>i\<close> of \<open>enumerate(chunks)\<close>: \<open>md\<close> is
  \<open>self.metadata\<close> and \<open>ids\<close> is \<open>vector_ids\<close>. Without FAISS the row \<open>i\<close> of the array is
  stored, and reading a row that is not there raises.
\<close>

fun append_records ::
  "env \<Rightarrow> real list list \<Rightarrow> string \<Rightarrow> nat \<Rightarrow> nat \<Rightarrow> string list \<Rightarrow> doc list \<Rightarrow> string list
     \<Rightarrow> error option \<times> doc list \<times> string list" where
  "append_records e arr src start_id i [] md ids = (None, md, ids)"
| "append_records e arr src start_id i (chunk # chunks) md ids =
     (let vector_id = ''vec_'' @ str_nat (start_id + i) in
      if FAISS_AVAILABLE e then
        append_records e arr src start_id (Suc i) chunks
          (md @ [\<lparr>doc_id = vector_id, content = chunk, source = src, vector = None\<rparr>])
          (ids @ [vector_id])
      else if i < length arr then
        append_records e arr src start_id (Suc i) chunks
          (md @ [\<lparr>doc_id = vector_id, content = chunk, source = src, vector = Some (arr ! i)\<rparr>])
          (ids @ [vector_id])
      else (Some IndexError, md, ids))"

text \<open>
  \<open>add_documents\<close> returns the ids, or the exception it raised, with the object and the
  disk as the call leaves them.
\<close>

definition add_documents ::
  "env \<Rightarrow> string list \<Rightarrow> string \<Rightarrow> rag \<Rightarrow> disk \<Rightarrow> (error + string list) \<times> rag \<times> disk" where
  "add_documents e texts src S fs =
     (let chunks = split_chunks e texts;
          embeddings_array = embed_chunks e chunks
      in case update_index e embeddings_array S of
           (Some err, S1) \<Rightarrow> (Inl err, S1, fs)
         | (None, S1) \<Rightarrow>
             (case append_records e embeddings_array src (length (metadata S1)) 0 chunks
                     (metadata S1) [] of
                (Some err, md, ids) \<Rightarrow> (Inl err, S1\<lparr>metadata := md\<rparr>, fs)
              | (None, md, ids) \<Rightarrow>
                  (Inr ids, S1\<lparr>metadata := md\<rparr>, save_index e (S1\<lparr>metadata := md\<rparr>) fs)))"

section \<open>Search\<close>

definition sentinel :: "string \<Rightarrow> result" where
  "sentinel query =
     \<lparr>res_id = None, res_content = ''No documents found for: '' @ query,
      res_source = ''System'', score = 0\<rparr>"

text \<open>\<open>sum(1 for word in query_lower.split() if word in content_lower)\<close>\<close>

definition keyword_score :: "string \<Rightarrow> string \<Rightarrow> int" where
  "keyword_score query_lower content_lower =
     sum_list (map (\<lambda>word. 1) (filter (\<lambda>word. sublist word content_lower) (split_ws query_lower)))"

text \<open>The loop over \<open>self.metadata\<close> that builds \<open>scored_docs\<close>.\<close>

fun score_docs :: "string \<Rightarrow> doc list \<Rightarrow> result list" where
  "score_docs query_lower [] = []"
| "score_docs query_lower (doc # docs) =
     (let s = keyword_score query_lower (lower (content doc)) in
      if s > 0
      then \<lparr>res_id = None, res_content = content doc, res_source = source doc,
            score = real_of_int s\<rparr> # score_docs query_lower docs
      else score_docs query_lower docs)"

definition unscored :: "doc \<Rightarrow> result" where
  "unscored doc =
     \<lparr>res_id = None, res_content = content doc, res_source = source doc, score = 0\<rparr>"

text \<open>
  The keyword branch, with \<open>k\<close> already clamped. Python's sort is stable, also with
  \<open>reverse=True\<close>, as is the insertion sort \<open>sort_key\<close> on the negated score.
\<close>

definition keyword_search :: "string \<Rightarrow> int \<Rightarrow> doc list \<Rightarrow> result list" where
  "keyword_search query k md =
     (let scored_docs = sort_key (\<lambda>x. - score x) (score_docs (lower query) md);
          results = slice_to k scored_docs
      in if results = [] then map unscored (slice_to k md) else results)"

definition query_vector :: "env \<Rightarrow> string \<Rightarrow> int \<Rightarrow> real list" where
  "query_vector e query dimension =
     (case (if EMBEDDINGS_AVAILABLE e then embeddings e else None) of
        Some emb \<Rightarrow>
          (case aembed_query emb query of
             Some v \<Rightarrow> map (f32 e) v
           | None \<Rightarrow> map (f32 e) (text_to_vector e query dimension))
      | None \<Rightarrow> map (f32 e) (text_to_vector e query dimension))"

text \<open>The loop over the labels that FAISS returned.\<close>

fun retrieve :: "doc list \<Rightarrow> (real \<times> int) list \<Rightarrow> result list \<Rightarrow> error + result list" where
  "retrieve md [] results = Inr results"
| "retrieve md ((distance, idx) # rest) results =
     (if idx < int (length md) then
        (case py_nth md idx of
           Inl err \<Rightarrow> Inl err
         | Inr doc \<Rightarrow>
             retrieve md rest
               (results @ [\<lparr>res_id = Some (doc_id doc), res_content = content doc,
                            res_source = source doc, score = distance\<rparr>]))
      else retrieve md rest results)"

definition search :: "env \<Rightarrow> string \<Rightarrow> int \<Rightarrow> rag \<Rightarrow> error + result list" where
  "search e query k S =
     (if length (metadata S) = 0 then Inr [sentinel query]
      else
        (let k' = min k (int (length (metadata S))) in
         case (if FAISS_AVAILABLE e then index S else None) of
           Some i \<Rightarrow>
             (case index_search e i (query_vector e query (int (index_d i))) k' of
                None \<Rightarrow> Inl IndexSearchError
              | Some found \<Rightarrow> retrieve (metadata S) found [])
         | None \<Rightarrow> Inr (keyword_search query k' (metadata S))))"

text \<open>
  What the keyword branch makes of one record, and the records with a positive score.
\<close>

definition scored :: "string \<Rightarrow> doc \<Rightarrow> result" where
  "scored query_lower d =
     \<lparr>res_id = None, res_content = content d, res_source = source d,
      score = real_of_int (keyword_score query_lower (lower (content d)))\<rparr>"

definition matching :: "string \<Rightarrow> doc list \<Rightarrow> doc list" where
  "matching query md = filter (\<lambda>d. 0 < keyword_score (lower query) (lower (content d))) md"

section \<open>The embedding as the specification words it\<close>

text \<open>
  The digest is repeated until the buffer holds at least \<open>d\<close> bytes; the buffer is then
  cut to \<open>d\<close> bytes, each byte is read as an unsigned number, and the vector is divided
  by its norm when the norm is positive.
\<close>

function tile_digest :: "byte list \<Rightarrow> nat \<Rightarrow> byte list \<Rightarrow> byte list" where
  "tile_digest digest d buf =
     (if d \<le> length buf \<or> digest = [] then buf else tile_digest digest d (buf @ digest))"
  by pat_completeness auto
termination
proof (relation "measure (\<lambda>(digest, d, buf). d - length buf)")
  show "wf (measure (\<lambda>(digest :: byte list, d, buf :: byte list). d - length buf))"
    by simp
next
  fix digest :: "byte list" and d :: nat and buf :: "byte list"
  assume "\<not> (d \<le> length buf \<or> digest = [])"
  then have "0 < length digest" and "length buf < d" by simp_all
  then have "d - length (buf @ digest) < d - length buf"
    unfolding length_append by arith
  then show "((digest, d, buf @ digest), (digest, d, buf))
      \<in> measure (\<lambda>(digest, d, buf). d - length buf)"
    by simp
qed

declare tile_digest.simps [simp del]

definition reference_embedding :: "env \<Rightarrow> string \<Rightarrow> nat \<Rightarrow> real list" where
  "reference_embedding e text d =
     (let digest = sha256 e (encode text);
          bytes = take d (tile_digest digest d []);
          v = map (\<lambda>b. real (unat b)) bytes;
          n = linalg_norm e v
      in if n > 0 then map (\<lambda>x. f32_div e x n) v else v)"

section \<open>The object and its files\<close>

text \<open>
  What links an object to the files of its user: with FAISS available, an object that
  holds records but no index was loaded when no index file was there. \<open>__init__\<close>
  establishes this and \<open>add_documents\<close> keeps it (lemmas \<open>init_consistent\<close> and
  \<open>add_documents_consistent\<close>).
\<close>

definition consistent :: "env \<Rightarrow> rag \<Rightarrow> disk \<Rightarrow> bool" where
  "consistent e S fs =
     (FAISS_AVAILABLE e \<and> index S = None \<and> metadata S \<noteq> [] \<longrightarrow> index_file fs = Missing)"

section \<open>Search on Python objects\<close>

text \<open>
  The records of \<open>self.metadata\<close> are dictionaries and the list holds references to
  them, so that a write through any reference would be seen by all. To state that
  \<open>search\<close> writes to none of them, \<open>search\<close> is modelled once more, on a store of
  objects: a dictionary is a finite map from keys to values, the heap gives the
  dictionary at every reference, and references from \<open>next_ref\<close> on are free.
\<close>

datatype pyvalue = PyStr string | PyFloat real | PyList "real list" | PyNone

type_synonym pydict = "string \<rightharpoonup> pyvalue"

record pyheap =
  cells :: "nat \<Rightarrow> pydict"
  next_ref :: nat

record store =
  self_index :: "faiss_index option"
  self_metadata :: "nat list"
  objects :: pyheap

text \<open>Exceptions: those of the list and index operations, and those of a dictionary.\<close>

datatype py_error = KeyError | AttributeError | Raised error

text \<open>
  A dictionary display allocates; \<open>d.copy()\<close> allocates a dictionary with the entries of
  \<open>d\<close>; \<open>d.pop(key, None)\<close> and \<open>d[key] = v\<close> write to the dictionary at the reference.
\<close>

definition new_dict :: "pydict \<Rightarrow> pyheap \<Rightarrow> nat \<times> pyheap" where
  "new_dict d h = (next_ref h, h\<lparr>cells := (cells h)(next_ref h := d), next_ref := Suc (next_ref h)\<rparr>)"

definition dict_copy :: "nat \<Rightarrow> pyheap \<Rightarrow> nat \<times> pyheap" where
  "dict_copy r h = new_dict (cells h r) h"

definition dict_pop :: "nat \<Rightarrow> string \<Rightarrow> pyheap \<Rightarrow> pyheap" where
  "dict_pop r key h = h\<lparr>cells := (cells h)(r := (cells h r)(key := None))\<rparr>"

definition dict_set :: "nat \<Rightarrow> string \<Rightarrow> pyvalue \<Rightarrow> pyheap \<Rightarrow> pyheap" where
  "dict_set r key v h = h\<lparr>cells := (cells h)(r := (cells h r)(key \<mapsto> v))\<rparr>"

definition sentinel_dict :: "string \<Rightarrow> pydict" where
  "sentinel_dict query =
     [''content'' \<mapsto> PyStr (''No documents found for: '' @ query),
      ''source'' \<mapsto> PyStr ''System'', ''score'' \<mapsto> PyFloat 0]"

text \<open>
  The loop that builds \<open>scored_docs\<close>: \<open>doc["content"]\<close> and \<open>doc["source"]\<close> are read
  from the heap, and every result is a new dictionary.
\<close>

fun score_docs_obj ::
  "string \<Rightarrow> nat list \<Rightarrow> pyheap \<Rightarrow> nat list \<Rightarrow> (py_error + nat list) \<times> pyheap" where
  "score_docs_obj query_lower [] h scored_docs = (Inr scored_docs, h)"
| "score_docs_obj query_lower (doc # docs) h scored_docs =
     (case cells h doc ''content'' of
        None \<Rightarrow> (Inl KeyError, h)
      | Some (PyStr c) \<Rightarrow>
          (if keyword_score query_lower (lower c) > 0 then
             (case cells h doc ''source'' of
                None \<Rightarrow> (Inl KeyError, h)
              | Some src \<Rightarrow>
                  (case new_dict [''content'' \<mapsto> PyStr c, ''source'' \<mapsto> src,
                          ''score'' \<mapsto> PyFloat (real_of_int (keyword_score query_lower (lower c)))] h of
                     (r, h') \<Rightarrow> score_docs_obj query_lower docs h' (scored_docs @ [r])))
           else score_docs_obj query_lower docs h scored_docs)
      | Some _ \<Rightarrow> (Inl AttributeError, h))"

text \<open>The sort key \<open>x["score"]\<close>, read from the heap.\<close>

definition score_key :: "pyheap \<Rightarrow> nat \<Rightarrow> real" where
  "score_key h r = (case cells h r ''score'' of Some (PyFloat x) \<Rightarrow> x | _ \<Rightarrow> 0)"

fun unscored_obj :: "nat list \<Rightarrow> pyheap \<Rightarrow> nat list \<Rightarrow> (py_error + nat list) \<times> pyheap" where
  "unscored_obj [] h results = (Inr results, h)"
| "unscored_obj (doc # docs) h results =
     (case cells h doc ''content'' of
        None \<Rightarrow> (Inl KeyError, h)
      | Some c \<Rightarrow>
          (case cells h doc ''source'' of
             None \<Rightarrow> (Inl KeyError, h)
           | Some src \<Rightarrow>
               (case new_dict [''content'' \<mapsto> c, ''source'' \<mapsto> src, ''score'' \<mapsto> PyFloat 0] h of
                  (r, h') \<Rightarrow> unscored_obj docs h' (results @ [r]))))"

definition keyword_search_obj ::
  "string \<Rightarrow> int \<Rightarrow> nat list \<Rightarrow> pyheap \<Rightarrow> (py_error + nat list) \<times> pyheap" where
  "keyword_search_obj query k md h =
     (case score_docs_obj (lower query) md h [] of
        (Inl err, h1) \<Rightarrow> (Inl err, h1)
      | (Inr scored_docs, h1) \<Rightarrow>
          (let results = slice_to k (sort_key (\<lambda>x. - score_key h1 x) scored_docs)
           in if results = [] then unscored_obj (slice_to k md) h1 [] else (Inr results, h1)))"

text \<open>
  The loop of the FAISS branch: \<open>result = self.metadata[idx].copy()\<close>, then
  \<open>result.pop("vector", None)\<close> and \<open>result["score"] = ...\<close> on the copy.
\<close>

fun retrieve_obj ::
  "nat list \<Rightarrow> (real \<times> int) list \<Rightarrow> pyheap \<Rightarrow> nat list \<Rightarrow> (py_error + nat list) \<times> pyheap" where
  "retrieve_obj md [] h results = (Inr results, h)"
| "retrieve_obj md ((distance, idx) # rest) h results =
     (if idx < int (length md) then
        (case py_nth md idx of
           Inl err \<Rightarrow> (Inl (Raised err), h)
         | Inr doc \<Rightarrow>
             (case dict_copy doc h of
                (result, h1) \<Rightarrow>
                  retrieve_obj md rest
                    (dict_set result ''score'' (PyFloat distance) (dict_pop result ''vector'' h1))
                    (results @ [result])))
      else retrieve_obj md rest h results)"

text \<open>\<open>search\<close>, returning the references of its results and the store it leaves.\<close>

definition search_obj :: "env \<Rightarrow> string \<Rightarrow> int \<Rightarrow> store \<Rightarrow> (py_error + nat list) \<times> store" where
  "search_obj e query k st =
     (if length (self_metadata st) = 0 then
        (case new_dict (sentinel_dict query) (objects st) of
           (r, h) \<Rightarrow> (Inr [r], st\<lparr>objects := h\<rparr>))
      else
        (let k' = min k (int (length (self_metadata st))) in
         case (if FAISS_AVAILABLE e then self_index st else None) of
           Some i \<Rightarrow>
             (case index_search e i (query_vector e query (int (index_d i))) k' of
                None \<Rightarrow> (Inl (Raised IndexSearchError), st)
              | Some found \<Rightarrow>
                  (case retrieve_obj (self_metadata st) found (objects st) [] of
                     (res, h) \<Rightarrow> (res, st\<lparr>objects := h\<rparr>)))
         | None \<Rightarrow>
             (case keyword_search_obj query k' (self_metadata st) (objects st) of
                (res, h) \<Rightarrow> (res, st\<lparr>objects := h\<rparr>))))"

text \<open>
  A heap extends another when every reference allocated in the first holds the same
  dictionary in the second.
\<close>

definition frame :: "pyheap \<Rightarrow> pyheap \<Rightarrow> bool" where
  "frame h h' = (next_ref h \<le> next_ref h' \<and> (\<forall>r<next_ref h. cells h' r = cells h r))"

text \<open>
  The link with the model on values: the dictionary of a record, the result that a
  dictionary stands for, and a store whose references hold the dictionaries of the
  records of a state.
\<close>

definition dict_of :: "doc \<Rightarrow> pydict" where
  "dict_of d =
     [''id'' \<mapsto> PyStr (doc_id d), ''content'' \<mapsto> PyStr (content d), ''source'' \<mapsto> PyStr (source d),
      ''vector'' \<mapsto> (case vector d of None \<Rightarrow> PyNone | Some v \<Rightarrow> PyList v)]"

definition result_of :: "pydict \<Rightarrow> result" where
  "result_of d =
     \<lparr>res_id = (case d ''id'' of Some (PyStr s) \<Rightarrow> Some s | _ \<Rightarrow> None),
      res_content = (case d ''content'' of Some (PyStr s) \<Rightarrow> s | _ \<Rightarrow> []),
      res_source = (case d ''source'' of Some (PyStr s) \<Rightarrow> s | _ \<Rightarrow> []),
      score = (case d ''score'' of Some (PyFloat x) \<Rightarrow> x | _ \<Rightarrow> 0)\<rparr>"

definition holds :: "pyheap \<Rightarrow> nat list \<Rightarrow> doc list \<Rightarrow> bool" where
  "holds h refs docs = list_all2 (\<lambda>r d. r < next_ref h \<and> cells h r = dict_of d) refs docs"

definition represents :: "store \<Rightarrow> rag \<Rightarrow> bool" where
  "represents st S =
     (self_index st = index S \<and> holds (objects st) (self_metadata st) (metadata S))"

fun same_outcome :: "pyheap \<Rightarrow> py_error + nat list \<Rightarrow> error + result list \<Rightarrow> bool" where
  "same_outcome h (Inr rs) v = (v = Inr (map (\<lambda>r. result_of (cells h r)) rs))"
| "same_outcome h (Inl (Raised x)) v = (v = Inl x)"
| "same_outcome h (Inl err) v = False"

section \<open>Example environments and stores\<close>

text \<open>
  An environment for the concrete examples: no provider and no LangChain splitter; exact
  real arithmetic stands for the float32 operations, padding to 32 bytes for the digest,
  and the index accepts rows of its own dimension only.
\<close>

definition example_env :: "bool \<Rightarrow> env" where
  "example_env faiss =
     \<lparr>FAISS_AVAILABLE = faiss, EMBEDDINGS_AVAILABLE = False, embeddings = None,
      text_splitter = None,
      sha256 = (\<lambda>bs. take 32 (bs @ replicate 32 0)),
      linalg_norm = (\<lambda>v. sqrt (sum_list (map (\<lambda>x. x * x) v))),
      f32_div = (\<lambda>x y. x / y),
      f32 = (\<lambda>x. x),
      index_add = (\<lambda>i arr.
        if arr \<noteq> [] \<and> list_all (\<lambda>row. length row = index_d i) arr
        then Some (i\<lparr>index_xb := index_xb i @ arr\<rparr>) else None),
      index_search = (\<lambda>i q k. None)\<rparr>"

definition two_docs :: rag where
  "two_docs =
     \<lparr>index = None,
      metadata =
        [\<lparr>doc_id = ''vec_0'', content = ''Alpha'', source = ''a.txt'', vector = Some [1, 0]\<rparr>,
         \<lparr>doc_id = ''vec_1'', content = ''beta'', source = ''a.txt'', vector = Some [0, 1]\<rparr>]\<rparr>"

definition empty_store :: rag where
  "empty_store = \<lparr>index = None, metadata = []\<rparr>"

text \<open>
  A keyword-mode environment with a provider that gives vectors of three components and
  fails on the chunk \<open>first. \<close>, and the stores and calls of the examples.
\<close>

definition provider_env :: env where
  "provider_env =
     (example_env False)
       \<lparr>EMBEDDINGS_AVAILABLE := True,
        embeddings := Some
          \<lparr>aembed_documents =
             (\<lambda>chunks. if chunks = [''first. ''] then None else Some (map (\<lambda>c. [1, 0, 0]) chunks)),
           aembed_query = (\<lambda>q. None)\<rparr>\<rparr>"

definition no_files :: disk where
  "no_files = \<lparr>index_file = Missing, metadata_file = Missing\<rparr>"

definition faiss_store :: rag where
  "faiss_store =
     \<lparr>index = Some \<lparr>index_d = 2, index_xb = [[1, 0]]\<rparr>,
      metadata = [\<lparr>doc_id = ''vec_0'', content = ''Alpha'', source = ''a.txt'', vector = None\<rparr>]\<rparr>"


definition first_added :: "(error + string list) \<times> rag \<times> disk" where
  "first_added = add_documents provider_env [''first''] ''a.txt'' empty_store no_files"

definition second_added :: "(error + string list) \<times> rag \<times> disk" where
  "second_added =
     add_documents provider_env [''second''] ''b.txt'' (fst (snd first_added)) (snd (snd first_added))"




definition corrupt_files :: disk where
  "corrupt_files = \<lparr>index_file = Stored \<lparr>index_d = 2, index_xb = [[1, 0]]\<rparr>, metadata_file = Corrupt\<rparr>"

definition corrupt_index :: disk where
  "corrupt_index = \<lparr>index_file = Corrupt, metadata_file = Stored (metadata two_docs)\<rparr>"

definition only_metadata :: disk where
  "only_metadata = \<lparr>index_file = Missing, metadata_file = Stored (metadata two_docs)\<rparr>"

definition only_index :: disk where
  "only_index = \<lparr>index_file = Stored \<lparr>index_d = 2, index_xb = [[1, 0]]\<rparr>, metadata_file = Missing\<rparr>"

definition both_files :: disk where
  "both_files =
     \<lparr>index_file = Stored \<lparr>index_d = 2, index_xb = [[1, 0]]\<rparr>,
      metadata_file = Stored (metadata faiss_store)\<rparr>"

text \<open>The store of \<open>two_docs\<close> as objects.\<close>

definition example_store :: store where
  "example_store =
     \<lparr>self_index = None, self_metadata = [0, 1],
      objects = \<lparr>cells = (\<lambda>r. Map.empty)
                   (0 := dict_of (metadata two_docs ! 0), 1 := dict_of (metadata two_docs ! 1)),
                 next_ref = 2\<rparr>\<rparr>"

definition example_search :: "(py_error + nat list) \<times> store" where
  "example_search = search_obj (example_env False) ''alpha'' 2 example_store"

section \<open>Properties of the keyword branch\<close>



lemma score_docs_filter:
  "score_docs ql md = map (scored ql) (filter (\<lambda>d. 0 < keyword_score ql (lower (content d))) md)"
  by (induction md) (simp_all add: Let_def scored_def)

lemma score_docs_matching: "score_docs (lower q) md = map (scored (lower q)) (matching q md)"
  by (simp add: score_docs_filter matching_def)


lemma take_min_length: "take (min n (length xs)) xs = take n xs"
  by (simp add: min_def)




lemma search_keyword_mode:
  assumes "metadata S \<noteq> []" and "\<not> FAISS_AVAILABLE e \<or> index S = None"
  shows "search e q k S = Inr (keyword_search q (min k (int (length (metadata S)))) (metadata S))"
  using assms by (auto simp: search_def Let_def)

lemma keyword_search_no_match:
  assumes "matching q md = []" and "0 \<le> k"
  shows "keyword_search q (min k (int (length md))) md = map unscored (take (nat k) md)"
proof -
  have "nat (min k (int (length md))) = min (nat k) (length md)" using assms(2) by simp
  then show ?thesis
    using assms by (simp add: keyword_search_def score_docs_matching slice_to_def take_min_length)
qed

lemma keyword_search_match:
  assumes "matching q md \<noteq> []" and "0 \<le> k"
  shows "length (keyword_search q (min k (int (length md))) md) = min (nat k) (length (matching q md))"
    and "\<forall>r\<in>set (keyword_search q (min k (int (length md))) md). 0 < score r"
proof -
  let ?sorted = "sort_key (\<lambda>x. - score x) (score_docs (lower q) md)"
  let ?k = "min k (int (length md))"
  have k: "nat ?k = min (nat k) (length md)" using assms(2) by simp
  have le: "length (matching q md) \<le> length md" by (simp add: matching_def)
  have len: "length ?sorted = length (matching q md)" by (simp add: score_docs_matching)
  have res: "slice_to ?k ?sorted = take (nat ?k) ?sorted" using assms(2) by (simp add: slice_to_def)
  have res': "slice_to ?k md = take (nat ?k) md" using assms(2) by (simp add: slice_to_def)
  have ne: "?sorted \<noteq> []" using len assms(1) by (metis length_0_conv)
  have pos: "\<forall>r\<in>set ?sorted. 0 < score r"
    by (auto simp: score_docs_matching matching_def scored_def)
  show "length (keyword_search q ?k md) = min (nat k) (length (matching q md))"
  proof (cases "take (nat ?k) ?sorted = []")
    case True
    with ne have k0: "nat ?k = 0" by (simp add: take_eq_Nil)
    with k le have "min (nat k) (length (matching q md)) = 0" by arith
    with True k0 show ?thesis unfolding keyword_search_def Let_def res res' by simp
  next
    case False
    then have "keyword_search q ?k md = take (nat ?k) ?sorted"
      unfolding keyword_search_def Let_def res res' by simp
    then show ?thesis using len k le by simp
  qed
  show "\<forall>r\<in>set (keyword_search q ?k md). 0 < score r"
  proof (cases "take (nat ?k) ?sorted = []")
    case True
    with ne have "nat ?k = 0" by (simp add: take_eq_Nil)
    with True show ?thesis unfolding keyword_search_def Let_def res res' by simp
  next
    case False
    then have "keyword_search q ?k md = take (nat ?k) ?sorted"
      unfolding keyword_search_def Let_def res res' by simp
    then show ?thesis using pos by (auto dest: in_set_takeD)
  qed
qed


text \<open>
  Claim C1, as the code has it. In keyword-fallback mode, on a non-empty store and for
  \<open>k \<ge> 0\<close>: when no record scores above 0, \<open>search\<close> returns the first \<open>min k size\<close>
  records in insertion order, each with score 0; when some record scores above 0, it
  returns \<open>min k m\<close> results, \<open>m\<close> being the number of records that score above 0, all
  of them with a positive score, and nothing is padded.
\<close>

theorem keyword_search_count:
  assumes "metadata S \<noteq> []" and "\<not> FAISS_AVAILABLE e \<or> index S = None" and "0 \<le> k"
  shows "\<exists>rs. search e q k S = Inr rs \<and>
           (if matching q (metadata S) = []
            then rs = map unscored (take (nat k) (metadata S)) \<and>
                 length rs = min (nat k) (length (metadata S))
            else length rs = min (nat k) (length (matching q (metadata S))) \<and>
                 (\<forall>r\<in>set rs. 0 < score r))"
proof (cases "matching q (metadata S) = []")
  case True
  with assms show ?thesis
    by (simp add: search_keyword_mode keyword_search_no_match)
next
  case False
  with assms show ?thesis
    using keyword_search_match [OF False assms(3)]
    by (simp add: search_keyword_mode)
qed

theorem keyword_search_count_witness:
  "metadata two_docs \<noteq> [] \<and> \<not> FAISS_AVAILABLE (example_env False) \<and> index two_docs = None \<and>
   (0::int) \<le> 2 \<and>
   (\<exists>rs. search (example_env False) ''alpha'' 2 two_docs = Inr rs \<and>
      (if matching ''alpha'' (metadata two_docs) = []
       then rs = map unscored (take (nat 2) (metadata two_docs)) \<and>
            length rs = min (nat 2) (length (metadata two_docs))
       else length rs = min (nat 2) (length (matching ''alpha'' (metadata two_docs))) \<and>
            (\<forall>r\<in>set rs. 0 < score r)))"
  using keyword_search_count [of two_docs "example_env False" 2 "''alpha''"]
  by (simp add: two_docs_def example_env_def)

text \<open>
  Claim C1 as it is stated fails: with two records of which one matches the query,
  \<open>search(q, 2)\<close> returns one result, fewer than \<open>min(2, 2)\<close>.
\<close>

theorem keyword_search_count_counterexample:
  "search (example_env False) ''alpha'' 2 two_docs =
     Inr [\<lparr>res_id = None, res_content = ''Alpha'', res_source = ''a.txt'', score = 1\<rparr>] \<and>
   int (length [\<lparr>res_id = None, res_content = ''Alpha'', res_source = ''a.txt'', score = 1\<rparr>])
     < min 2 (int (length (metadata two_docs)))"
  by (simp add: search_def example_env_def two_docs_def keyword_search_def keyword_score_def
      lower_def lower_char_def split_ws_def is_space_def slice_to_def sublist_code)

text \<open>
  Claim C6. On a store without records, \<open>search\<close> returns, for every query and every
  \<open>k\<close>, exactly one record and no error: the sentinel, whose score is 0 and whose source
  is the marker \<open>System\<close>, with no record id.
\<close>

theorem search_empty_store:
  assumes "metadata S = []"
  shows "search e q k S =
           Inr [\<lparr>res_id = None, res_content = ''No documents found for: '' @ q,
                 res_source = ''System'', score = 0\<rparr>]"
  using assms by (simp add: search_def sentinel_def)

theorem search_empty_store_witness:
  "metadata empty_store = [] \<and>
   search (example_env False) ''anything'' 5 empty_store =
     Inr [\<lparr>res_id = None, res_content = ''No documents found for: anything'',
           res_source = ''System'', score = 0\<rparr>]"
  using search_empty_store [of empty_store "example_env False" "''anything''" 5]
  by (simp add: empty_store_def)

section \<open>Properties of the sentence splitter\<close>

lemma split_dot_join: "concat (map (\<lambda>p. p @ ''. '') (split_dot acc s)) = acc @ s @ ''. ''"
  by (induction acc s rule: split_dot.induct) auto

lemma add_sentence_concat:
  "add_sentence (cur, chunks) s = (cur', chunks') \<Longrightarrow>
     concat chunks' @ cur' = concat chunks @ cur @ s @ ''. ''"
  by (auto simp: add_sentence_def split: if_splits)

lemma foldl_add_sentence_concat:
  "foldl add_sentence (cur, chunks) ss = (cur', chunks') \<Longrightarrow>
     concat chunks' @ cur' = concat chunks @ cur @ concat (map (\<lambda>p. p @ ''. '') ss)"
proof (induction ss arbitrary: cur chunks)
  case Nil
  then show ?case by simp
next
  case (Cons s ss)
  obtain c1 ch1 where step: "add_sentence (cur, chunks) s = (c1, ch1)" by (cases "add_sentence (cur, chunks) s")
  with Cons.prems have "foldl add_sentence (c1, ch1) ss = (cur', chunks')" by simp
  from Cons.IH [OF this] add_sentence_concat [OF step] show ?case by simp
qed

lemma split_text_fallback_concat:
  "concat (split_text_fallback chunks text) = concat chunks @ text @ ''. ''"
proof -
  obtain cur' chunks' where f: "foldl add_sentence ([], chunks) (split_sentences text) = (cur', chunks')"
    by (cases "foldl add_sentence ([], chunks) (split_sentences text)")
  from foldl_add_sentence_concat [OF f]
  have "concat chunks' @ cur' = concat chunks @ text @ ''. ''"
    by (simp add: split_sentences_def split_dot_join)
  with f show ?thesis by (auto simp: split_text_fallback_def)
qed

lemma foldl_split_text_concat:
  "concat (foldl split_text_fallback chunks texts) = concat chunks @ concat (map (\<lambda>t. t @ ''. '') texts)"
  by (induction texts arbitrary: chunks) (simp_all add: split_text_fallback_concat)

lemma fallback_chunks_cover: "concat (fallback_chunks texts) = concat (map (\<lambda>t. t @ ''. '') texts)"
  by (simp add: fallback_chunks_def foldl_split_text_concat)

lemma add_sentence_nonempty:
  "add_sentence (cur, chunks) s = (cur', chunks') \<Longrightarrow> [] \<notin> set chunks \<Longrightarrow> [] \<notin> set chunks' \<and> cur' \<noteq> []"
  by (auto simp: add_sentence_def split: if_splits)

lemma foldl_add_sentence_nonempty:
  "foldl add_sentence (cur, chunks) ss = (cur', chunks') \<Longrightarrow> [] \<notin> set chunks \<Longrightarrow> [] \<notin> set chunks'"
proof (induction ss arbitrary: cur chunks)
  case Nil
  then show ?case by simp
next
  case (Cons s ss)
  obtain c1 ch1 where step: "add_sentence (cur, chunks) s = (c1, ch1)" by (cases "add_sentence (cur, chunks) s")
  with Cons.prems have f: "foldl add_sentence (c1, ch1) ss = (cur', chunks')" by simp
  from add_sentence_nonempty [OF step Cons.prems(2)] have "[] \<notin> set ch1" by simp
  from Cons.IH [OF f this] show ?case .
qed

lemma split_text_fallback_nonempty:
  "[] \<notin> set chunks \<Longrightarrow> [] \<notin> set (split_text_fallback chunks text)"
proof -
  assume a: "[] \<notin> set chunks"
  obtain cur' chunks' where f: "foldl add_sentence ([], chunks) (split_sentences text) = (cur', chunks')"
    by (cases "foldl add_sentence ([], chunks) (split_sentences text)")
  from foldl_add_sentence_nonempty [OF f a] f show ?thesis
    by (auto simp: split_text_fallback_def)
qed

lemma foldl_split_text_nonempty:
  "[] \<notin> set chunks \<Longrightarrow> [] \<notin> set (foldl split_text_fallback chunks texts)"
  by (induction texts arbitrary: chunks) (simp_all add: split_text_fallback_nonempty)

lemma fallback_chunks_nonempty: "[] \<notin> set (fallback_chunks texts)"
  by (simp add: fallback_chunks_def foldl_split_text_nonempty)

lemma split_dot_single:
  "\<not> sublist ''. '' s \<Longrightarrow> split_dot acc s = [acc @ s]"
proof (induction acc s rule: split_dot.induct)
  case (1 acc c d cs)
  from 1(3) have nd: "\<not> (c = CHR ''.'' \<and> d = CHR '' '')"
    by (auto simp: sublist_code)
  from 1(3) have "\<not> sublist ''. '' (d # cs)"
    by (auto simp: sublist_code)
  with 1(2) nd have "split_dot (acc @ [c]) (d # cs) = [(acc @ [c]) @ (d # cs)]" by blast
  with nd show ?case by simp
qed simp_all

lemma long_sentence_one_chunk:
  assumes "\<not> sublist ''. '' s" and "500 \<le> length s"
  shows "fallback_chunks [s] = [s @ ''. '']"
  using assms
  by (simp add: fallback_chunks_def split_text_fallback_def split_sentences_def split_dot_single
      add_sentence_def)

text \<open>
  Claim C7. The sentence splitter turns the empty string into one chunk, the separator
  alone, where the claim has no chunk at all. The other parts of the claim hold and are
  the lemmas above: no chunk is empty (\<open>fallback_chunks_nonempty\<close>), the chunks
  concatenated are the texts, each followed by the separator
  (\<open>fallback_chunks_cover\<close>), and a sentence of 500 characters or more is one chunk
  (\<open>long_sentence_one_chunk\<close>).
\<close>

theorem fallback_chunks_empty_text: "fallback_chunks [''''] = [''. '']"
  by (simp add: fallback_chunks_def split_text_fallback_def split_sentences_def add_sentence_def)

section \<open>Properties of the deterministic embedding\<close>

lemma tile_digest_copies:
  "h \<noteq> [] \<Longrightarrow> \<exists>m. tile_digest h d (concat (replicate j h)) = concat (replicate m h) \<and> d \<le> m * length h"
proof (induction "d - length (concat (replicate j h))" arbitrary: j rule: less_induct)
  case less
  show ?case
  proof (cases "d \<le> length (concat (replicate j h))")
    case True
    then have "tile_digest h d (concat (replicate j h)) = concat (replicate j h)"
      by (simp add: tile_digest.simps)
    moreover have "length (concat (replicate j h)) = j * length h"
      by (induction j) simp_all
    ultimately show ?thesis using True by auto
  next
    case False
    have app: "concat (replicate j h) @ h = concat (replicate (Suc j) h)"
      by (induction j) simp_all
    from False less.prems
    have step: "tile_digest h d (concat (replicate j h)) = tile_digest h d (concat (replicate (Suc j) h))"
      by (subst tile_digest.simps) (simp add: app del: replicate.simps)
    have "d - length (concat (replicate (Suc j) h)) < d - length (concat (replicate j h))"
    proof -
      from less.prems have "0 < length h" by simp
      moreover have "length (concat (replicate (Suc j) h)) = length h + length (concat (replicate j h))"
        by simp
      ultimately show ?thesis using False by arith
    qed
    from less.hyps [OF this less.prems] step show ?thesis by simp
  qed
qed

lemma length_concat_replicate: "length (concat (replicate m h)) = m * length h"
  by (induction m) simp_all

lemma take_copies_le:
  assumes "d \<le> m * length h" and "m \<le> n"
  shows "take d (concat (replicate n h)) = take d (concat (replicate m h))"
proof -
  from assms(2) have "replicate n h = replicate m h @ replicate (n - m) h"
    by (simp add: replicate_add [symmetric])
  then have "concat (replicate n h) = concat (replicate m h) @ concat (replicate (n - m) h)"
    by simp
  with assms(1) show ?thesis by (simp add: length_concat_replicate)
qed

lemma take_copies:
  assumes "d \<le> m * length h" and "d \<le> n * length h"
  shows "take d (concat (replicate n h)) = take d (concat (replicate m h))"
proof (cases "m \<le> n")
  case True
  from take_copies_le [OF assms(1) this] show ?thesis .
next
  case False
  then have "n \<le> m" by simp
  from take_copies_le [OF assms(2) this] show ?thesis by (rule sym)
qed

lemma code_copies_enough:
  assumes "h \<noteq> []" and "0 < d"
  shows "nat d \<le> nat (d div int (length h) + 1) * length h"
proof -
  let ?l = "int (length h)"
  from assms(1) have l: "0 < ?l" by simp
  have "d = ?l * (d div ?l) + d mod ?l" by simp
  moreover have "d mod ?l < ?l" using l by simp
  ultimately have "d < ?l * (d div ?l) + ?l" by linarith
  then have lt: "d < (d div ?l + 1) * ?l" by (simp add: algebra_simps)
  have nn: "0 \<le> d div ?l + 1" using assms(2) l by (simp add: pos_imp_zdiv_nonneg_iff)
  from lt have "nat d \<le> nat ((d div ?l + 1) * ?l)" by linarith
  also have "\<dots> = nat (d div ?l + 1) * nat ?l" using nn by (rule nat_mult_distrib)
  finally show ?thesis by simp
qed

lemma slice_bytes_tile:
  assumes "h \<noteq> []" and "0 < d"
  shows "slice_to d (bytes_mul h (d div int (length h) + 1)) = take (nat d) (tile_digest h (nat d) [])"
proof -
  from tile_digest_copies [OF assms(1), of "nat d" 0] obtain m where
    m: "tile_digest h (nat d) [] = concat (replicate m h)" "nat d \<le> m * length h" by auto
  from take_copies [OF m(2) code_copies_enough [OF assms]] m(1) assms(2)
  show ?thesis by (simp add: slice_to_def bytes_mul_def)
qed

text \<open>
  Claim C2. For every text and every dimension \<open>d > 0\<close>, with a digest of 32 bytes,
  \<open>_text_to_vector\<close> computes the embedding of the specification and the vector has
  exactly \<open>d\<close> components. The code repeats the digest \<open>d // 32 + 1\<close> times where the
  specification repeats it until \<open>d\<close> bytes are there; after the cut to \<open>d\<close> bytes the
  two agree. The vector is a function of the text and the dimension alone, so that
  equal texts give equal vectors.
\<close>

theorem text_to_vector_reference:
  assumes "0 < d" and "length (sha256 e (encode text)) = 32"
  shows "text_to_vector e text d = reference_embedding e text (nat d) \<and>
         length (text_to_vector e text d) = nat d"
proof -
  let ?h = "sha256 e (encode text)"
  from assms(2) have ne: "?h \<noteq> []" by auto
  have eq: "text_to_vector e text d = reference_embedding e text (nat d)"
    by (simp add: text_to_vector_def reference_embedding_def slice_bytes_tile [OF ne assms(1)] Let_def)
  have "length (slice_to d (bytes_mul ?h (d div int (length ?h) + 1))) = nat d"
    using code_copies_enough [OF ne assms(1)] assms(1)
    by (simp add: slice_to_def bytes_mul_def length_concat_replicate)
  then have "length (text_to_vector e text d) = nat d"
    by (simp add: text_to_vector_def Let_def)
  with eq show ?thesis by simp
qed

theorem text_to_vector_reference_witness:
  "(0::int) < 4 \<and> length (sha256 (example_env False) (encode ''abc'')) = 32 \<and>
   text_to_vector (example_env False) ''abc'' 4 = reference_embedding (example_env False) ''abc'' (nat 4) \<and>
   length (text_to_vector (example_env False) ''abc'' 4) = nat 4"
proof -
  have h: "length (sha256 (example_env False) (encode ''abc'')) = 32"
    by (simp add: example_env_def encode_def)
  have d: "(0::int) < 4" by simp
  from text_to_vector_reference [OF d h] h d show ?thesis by blast
qed

section \<open>Properties of adding documents\<close>

lemma append_records_success:
  "append_records e arr src start i chunks md ids = (None, md', ids') \<Longrightarrow>
     \<exists>new. md' = md @ new \<and> map content new = chunks \<and> map source new = map (\<lambda>c. src) chunks \<and>
       map doc_id new = map (\<lambda>j. ''vec_'' @ str_nat (start + j)) [i ..< i + length chunks] \<and>
       (\<forall>d\<in>set new. (vector d = None) = FAISS_AVAILABLE e) \<and>
       ids' = ids @ map doc_id new"
proof (induction chunks arbitrary: i md ids)
  case Nil
  then show ?case by simp
next
  case (Cons chunk chunks)
  let ?vid = "''vec_'' @ str_nat (start + i)"
  show ?case
  proof (cases "FAISS_AVAILABLE e")
    case True
    let ?d = "\<lparr>doc_id = ?vid, content = chunk, source = src, vector = None\<rparr>"
    from Cons.prems True
    have "append_records e arr src start (Suc i) chunks (md @ [?d]) (ids @ [?vid]) = (None, md', ids')"
      by (simp add: Let_def)
    from Cons.IH [OF this] obtain new where
      new: "md' = (md @ [?d]) @ new" "map content new = chunks" "map source new = map (\<lambda>c. src) chunks"
        "map doc_id new = map (\<lambda>j. ''vec_'' @ str_nat (start + j)) [Suc i ..< Suc i + length chunks]"
        "\<forall>d\<in>set new. (vector d = None) = FAISS_AVAILABLE e" "ids' = (ids @ [?vid]) @ map doc_id new"
      by blast
    have "[i ..< i + length (chunk # chunks)] = i # [Suc i ..< Suc i + length chunks]"
      by (subst upt_rec) simp
    with new True show ?thesis
      by (intro exI [of _ "?d # new"]) simp
  next
    case False
    with Cons.prems have lt: "i < length arr"
      by (auto simp: Let_def split: if_splits)
    let ?d = "\<lparr>doc_id = ?vid, content = chunk, source = src, vector = Some (arr ! i)\<rparr>"
    from Cons.prems False lt
    have "append_records e arr src start (Suc i) chunks (md @ [?d]) (ids @ [?vid]) = (None, md', ids')"
      by (simp add: Let_def)
    from Cons.IH [OF this] obtain new where
      new: "md' = (md @ [?d]) @ new" "map content new = chunks" "map source new = map (\<lambda>c. src) chunks"
        "map doc_id new = map (\<lambda>j. ''vec_'' @ str_nat (start + j)) [Suc i ..< Suc i + length chunks]"
        "\<forall>d\<in>set new. (vector d = None) = FAISS_AVAILABLE e" "ids' = (ids @ [?vid]) @ map doc_id new"
      by blast
    have "[i ..< i + length (chunk # chunks)] = i # [Suc i ..< Suc i + length chunks]"
      by (subst upt_rec) simp
    with new False show ?thesis
      by (intro exI [of _ "?d # new"]) simp
  qed
qed

lemma append_records_prefix:
  "append_records e arr src start i chunks md ids = (r, md', ids') \<Longrightarrow> \<exists>new. md' = md @ new"
proof (induction chunks arbitrary: i md ids)
  case Nil
  then show ?case by simp
next
  case (Cons chunk chunks)
  then show ?case
    by (fastforce simp: Let_def split: if_splits)
qed

lemma append_records_total:
  "FAISS_AVAILABLE e \<or> i + length chunks \<le> length arr \<Longrightarrow>
     \<exists>md' ids'. append_records e arr src start i chunks md ids = (None, md', ids')"
  by (induction chunks arbitrary: i md ids) (auto simp: Let_def)

lemma update_index_metadata: "update_index e arr S = (r, S1) \<Longrightarrow> metadata S1 = metadata S"
  by (auto simp: update_index_def split: if_splits option.splits sum.splits list.splits)

lemma update_index_keyword: "\<not> FAISS_AVAILABLE e \<Longrightarrow> update_index e arr S = (None, S)"
  by (simp add: update_index_def)

lemma add_documents_records:
  assumes "add_documents e texts src S fs = (Inr ids, S', fs')"
  shows "\<exists>new. metadata S' = metadata S @ new \<and> map content new = split_chunks e texts \<and>
           map source new = map (\<lambda>c. src) (split_chunks e texts) \<and>
           (\<forall>d\<in>set new. (vector d = None) = FAISS_AVAILABLE e) \<and>
           ids = map doc_id new \<and>
           metadata_file fs' = Stored (metadata S')"
proof -
  let ?chunks = "split_chunks e texts"
  let ?arr = "embed_chunks e ?chunks"
  obtain r S1 where u: "update_index e ?arr S = (r, S1)" by (cases "update_index e ?arr S")
  obtain r2 md ids2 where a:
    "append_records e ?arr src (length (metadata S1)) 0 ?chunks (metadata S1) [] = (r2, md, ids2)"
    by (cases "append_records e ?arr src (length (metadata S1)) 0 ?chunks (metadata S1) []")
  from assms u a have r: "r = None" and r2: "r2 = None"
    by (auto simp: add_documents_def Let_def split: option.splits)
  from assms u a r r2 have res: "ids = ids2" "S' = S1\<lparr>metadata := md\<rparr>"
      "fs' = save_index e (S1\<lparr>metadata := md\<rparr>) fs"
    by (auto simp: add_documents_def Let_def)
  from a r2 append_records_success [of e ?arr src "length (metadata S1)" 0 ?chunks "metadata S1" "[]" md ids2]
  obtain new where new: "md = metadata S1 @ new" "map content new = ?chunks"
      "map source new = map (\<lambda>c. src) ?chunks"
      "\<forall>d\<in>set new. (vector d = None) = FAISS_AVAILABLE e" "ids2 = map doc_id new"
    by auto
  have "metadata_file fs' = Stored (metadata S')"
    using res by (simp add: save_index_def split: option.splits)
  with new res update_index_metadata [OF u] show ?thesis by auto
qed

lemma add_documents_keyword_success:
  assumes "\<not> FAISS_AVAILABLE e"
    and "length (split_chunks e texts) \<le> length (embed_chunks e (split_chunks e texts))"
  shows "\<exists>ids S' fs'. add_documents e texts src S fs = (Inr ids, S', fs')"
proof -
  let ?chunks = "split_chunks e texts"
  let ?arr = "embed_chunks e ?chunks"
  from append_records_total [of e 0 ?chunks ?arr src "length (metadata S)" "metadata S" "[]"] assms(2)
  obtain md ids where "append_records e ?arr src (length (metadata S)) 0 ?chunks (metadata S) [] = (None, md, ids)"
    by auto
  with assms(1) show ?thesis
    by (simp add: add_documents_def Let_def update_index_keyword)
qed

lemma add_documents_index_add_fails:
  assumes "FAISS_AVAILABLE e" and "index S = Some i"
    and "index_add e i (embed_chunks e (split_chunks e texts)) = None"
  shows "add_documents e texts src S fs = (Inl IndexAddError, S, fs)"
  using assms by (simp add: add_documents_def Let_def update_index_def)

lemma length_text_to_vector:
  assumes "0 < d" and "sha256 e (encode text) \<noteq> []"
  shows "length (text_to_vector e text d) = nat d"
proof -
  let ?h = "sha256 e (encode text)"
  have "length (slice_to d (bytes_mul ?h (d div int (length ?h) + 1))) = nat d"
    using code_copies_enough [OF assms(2) assms(1)] assms(1)
    by (simp add: slice_to_def bytes_mul_def length_concat_replicate)
  then show ?thesis by (simp add: text_to_vector_def Let_def)
qed

lemma str_nat_digit: "n < 10 \<Longrightarrow> str_nat n = [digit_char n]"
  by (simp add: str_nat.simps)





lemma provider_env_fields:
  "\<not> FAISS_AVAILABLE provider_env" "text_splitter provider_env = None"
  "EMBEDDINGS_AVAILABLE provider_env"
  "embeddings provider_env = Some
          \<lparr>aembed_documents =
             (\<lambda>chunks. if chunks = [''first. ''] then None else Some (map (\<lambda>c. [1, 0, 0]) chunks)),
           aembed_query = (\<lambda>q. None)\<rparr>"
  "f32 provider_env = (\<lambda>x. x)"
  "sha256 provider_env = (\<lambda>bs. take 32 (bs @ replicate 32 0))"
  by (simp_all add: provider_env_def example_env_def)

lemma first_added_eval:
  "first_added =
     (Inr [''vec_0''],
      \<lparr>index = None, metadata = [\<lparr>doc_id = ''vec_0'', content = ''first. '', source = ''a.txt'',
          vector = Some (text_to_vector provider_env ''first. '' 384)\<rparr>]\<rparr>,
      \<lparr>index_file = Missing, metadata_file = Stored [\<lparr>doc_id = ''vec_0'', content = ''first. '', source = ''a.txt'',
          vector = Some (text_to_vector provider_env ''first. '' 384)\<rparr>]\<rparr>)"
proof -
  have c: "split_chunks provider_env [''first''] = [''first. '']"
    by (simp add: split_chunks_def provider_env_fields fallback_chunks_def split_text_fallback_def
        split_sentences_def add_sentence_def)
  show ?thesis
    unfolding first_added_def add_documents_def Let_def c
    by (simp add: provider_env_fields update_index_def embed_chunks_def fallback_embeddings_def
        empty_store_def no_files_def save_index_def str_nat_digit digit_char_def Let_def)
qed

lemma second_added_eval:
  "second_added =
     (Inr [''vec_1''],
      \<lparr>index = None, metadata = [\<lparr>doc_id = ''vec_0'', content = ''first. '', source = ''a.txt'',
          vector = Some (text_to_vector provider_env ''first. '' 384)\<rparr>,
          \<lparr>doc_id = ''vec_1'', content = ''second. '', source = ''b.txt'', vector = Some [1, 0, 0]\<rparr>]\<rparr>,
      \<lparr>index_file = Missing, metadata_file = Stored [\<lparr>doc_id = ''vec_0'', content = ''first. '', source = ''a.txt'',
          vector = Some (text_to_vector provider_env ''first. '' 384)\<rparr>,
          \<lparr>doc_id = ''vec_1'', content = ''second. '', source = ''b.txt'', vector = Some [1, 0, 0]\<rparr>]\<rparr>)"
proof -
  have c: "split_chunks provider_env [''second''] = [''second. '']"
    by (simp add: split_chunks_def provider_env_fields fallback_chunks_def split_text_fallback_def
        split_sentences_def add_sentence_def)
  show ?thesis
    unfolding second_added_def add_documents_def Let_def c first_added_eval
    by (simp add: provider_env_fields update_index_def embed_chunks_def rectangular_def
        save_index_def str_nat_digit digit_char_def Let_def)
qed

text \<open>
  Claim C3, as the code has it. \<open>add_documents\<close> compares no dimensions and has no
  error of its own for them. With FAISS and an index present, when the index's \<open>add\<close>
  raises, \<open>add_documents\<close> raises and the index, the records and the files are as
  before. Without FAISS an add succeeds whatever the length of its vectors, whenever the
  array has a row for every chunk, and the store grows by one record per chunk.
\<close>

theorem add_without_dimension_check:
  "(FAISS_AVAILABLE e \<and> index S = Some i \<and>
      index_add e i (embed_chunks e (split_chunks e texts)) = None \<longrightarrow>
        add_documents e texts src S fs = (Inl IndexAddError, S, fs)) \<and>
   (\<not> FAISS_AVAILABLE e \<and>
      length (split_chunks e texts) \<le> length (embed_chunks e (split_chunks e texts)) \<longrightarrow>
        (\<exists>ids S' fs'. add_documents e texts src S fs = (Inr ids, S', fs') \<and>
           length (metadata S') = length (metadata S) + length (split_chunks e texts)))"
proof (intro conjI impI)
  assume "FAISS_AVAILABLE e \<and> index S = Some i \<and>
      index_add e i (embed_chunks e (split_chunks e texts)) = None"
  then show "add_documents e texts src S fs = (Inl IndexAddError, S, fs)"
    by (simp add: add_documents_index_add_fails)
next
  assume a: "\<not> FAISS_AVAILABLE e \<and>
      length (split_chunks e texts) \<le> length (embed_chunks e (split_chunks e texts))"
  then obtain ids S' fs' where r: "add_documents e texts src S fs = (Inr ids, S', fs')"
    using add_documents_keyword_success [of e texts src S fs] by blast
  from add_documents_records [OF r] obtain new where
    "metadata S' = metadata S @ new" "map content new = split_chunks e texts" by blast
  then have "length (metadata S') = length (metadata S) + length (split_chunks e texts)"
    by (metis length_append length_map)
  with r show "\<exists>ids S' fs'. add_documents e texts src S fs = (Inr ids, S', fs') \<and>
           length (metadata S') = length (metadata S) + length (split_chunks e texts)"
    by blast
qed

lemma example_env_fields:
  "FAISS_AVAILABLE (example_env b) = b" "text_splitter (example_env b) = None"
  "EMBEDDINGS_AVAILABLE (example_env b) = False" "embeddings (example_env b) = None"
  "f32 (example_env b) = (\<lambda>x. x)"
  "sha256 (example_env b) = (\<lambda>bs. take 32 (bs @ replicate 32 0))"
  "index_add (example_env b) = (\<lambda>i arr.
        if arr \<noteq> [] \<and> list_all (\<lambda>row. length row = index_d i) arr
        then Some (i\<lparr>index_xb := index_xb i @ arr\<rparr>) else None)"
  by (simp_all add: example_env_def)

lemma beta_chunks: "split_chunks (example_env b) [''beta''] = [''beta. '']"
  by (simp add: split_chunks_def example_env_fields fallback_chunks_def split_text_fallback_def
      split_sentences_def add_sentence_def)

lemma beta_embedded:
  "embed_chunks (example_env b) [''beta. ''] = [text_to_vector (example_env b) ''beta. '' 384]"
  by (simp add: embed_chunks_def fallback_embeddings_def example_env_fields)

lemma beta_vector_length: "length (text_to_vector (example_env b) ''beta. '' 384) = 384"
  using length_text_to_vector [of 384 "example_env b" "''beta. ''"]
  by (simp add: example_env_fields encode_def)

theorem add_without_dimension_check_witness:
  "FAISS_AVAILABLE (example_env True) \<and>
   index faiss_store = Some \<lparr>index_d = 2, index_xb = [[1, 0]]\<rparr> \<and>
   index_add (example_env True) \<lparr>index_d = 2, index_xb = [[1, 0]]\<rparr>
     (embed_chunks (example_env True) (split_chunks (example_env True) [''beta''])) = None \<and>
   add_documents (example_env True) [''beta''] ''b.txt'' faiss_store no_files
     = (Inl IndexAddError, faiss_store, no_files) \<and>
   \<not> FAISS_AVAILABLE (example_env False) \<and>
   length (split_chunks (example_env False) [''beta''])
     \<le> length (embed_chunks (example_env False) (split_chunks (example_env False) [''beta''])) \<and>
   (\<exists>ids S' fs'. add_documents (example_env False) [''beta''] ''b.txt'' two_docs no_files = (Inr ids, S', fs') \<and>
      length (metadata S') = length (metadata two_docs) + length (split_chunks (example_env False) [''beta'']))"
proof -
  have a1: "FAISS_AVAILABLE (example_env True)" by (simp add: example_env_fields)
  have a2: "index faiss_store = Some \<lparr>index_d = 2, index_xb = [[1, 0]]\<rparr>" by (simp add: faiss_store_def)
  have a3: "index_add (example_env True) \<lparr>index_d = 2, index_xb = [[1, 0]]\<rparr>
     (embed_chunks (example_env True) (split_chunks (example_env True) [''beta''])) = None"
    by (simp add: beta_chunks beta_embedded beta_vector_length example_env_fields)
  have b1: "\<not> FAISS_AVAILABLE (example_env False)" by (simp add: example_env_fields)
  have b2: "length (split_chunks (example_env False) [''beta''])
     \<le> length (embed_chunks (example_env False) (split_chunks (example_env False) [''beta'']))"
    by (simp add: beta_chunks beta_embedded)
  from add_without_dimension_check [of "example_env True" faiss_store "\<lparr>index_d = 2, index_xb = [[1, 0]]\<rparr>"
      "[''beta'']" "''b.txt''" no_files] a1 a2 a3
  have c1: "add_documents (example_env True) [''beta''] ''b.txt'' faiss_store no_files
     = (Inl IndexAddError, faiss_store, no_files)" by blast
  from add_without_dimension_check [of "example_env False" two_docs _ "[''beta'']" "''b.txt''" no_files] b1 b2
  have c2: "\<exists>ids S' fs'. add_documents (example_env False) [''beta''] ''b.txt'' two_docs no_files = (Inr ids, S', fs') \<and>
      length (metadata S') = length (metadata two_docs) + length (split_chunks (example_env False) [''beta''])"
    by blast
  from a1 a2 a3 b1 b2 c1 c2 show ?thesis by blast
qed

text \<open>
  Claim C3 as it is stated fails: without FAISS, a first add stores a vector of 384
  components and a second add, with vectors of 3 components, succeeds and grows the
  store to two records.
\<close>

theorem add_without_dimension_check_counterexample:
  "fst first_added = Inr [''vec_0''] \<and> length (metadata (fst (snd first_added))) = 1 \<and>
   fst second_added = Inr [''vec_1''] \<and> length (metadata (fst (snd second_added))) = 2 \<and>
   map (map_option length \<circ> vector) (metadata (fst (snd second_added))) = [Some 384, Some 3]"
proof -
  have "length (text_to_vector provider_env ''first. '' 384) = 384"
    using length_text_to_vector [of 384 provider_env "''first. ''"]
    by (simp add: provider_env_fields encode_def)
  then show ?thesis by (simp add: first_added_eval second_added_eval)
qed

section \<open>Scores and ranking of the keyword branch\<close>









section \<open>Properties of persistence\<close>

lemma init_consistent: "consistent e (init e fs) fs"
  by (auto simp: consistent_def init_def load_index_def Let_def split: on_disk.splits if_splits)

lemma update_index_consistent:
  assumes "consistent e S fs" and "update_index e arr S = (r, S1)"
  shows "consistent e S1 fs"
  using assms
  by (auto simp: consistent_def update_index_def split: if_splits option.splits sum.splits list.splits)

lemma consistent_metadata: "consistent e S fs \<Longrightarrow> index S \<noteq> None \<or> \<not> FAISS_AVAILABLE e \<Longrightarrow> consistent e (S\<lparr>metadata := md\<rparr>) fs'"
  by (auto simp: consistent_def)

lemma update_index_index:
  assumes "update_index e arr S = (None, S1)" and "FAISS_AVAILABLE e"
  shows "index S1 \<noteq> None"
  using assms
  by (auto simp: update_index_def split: if_splits option.splits sum.splits list.splits)

lemma add_documents_consistent:
  assumes "consistent e S fs" and "add_documents e texts src S fs = (r, S', fs')"
  shows "consistent e S' fs'"
proof -
  let ?chunks = "split_chunks e texts"
  let ?arr = "embed_chunks e ?chunks"
  obtain r1 S1 where u: "update_index e ?arr S = (r1, S1)" by (cases "update_index e ?arr S")
  show ?thesis
  proof (cases r1)
    case (Some err)
    with assms(2) u have "S' = S1" "fs' = fs" by (auto simp: add_documents_def Let_def)
    with update_index_consistent [OF assms(1) u] show ?thesis by simp
  next
    case None
    obtain r2 md ids2 where a:
      "append_records e ?arr src (length (metadata S1)) 0 ?chunks (metadata S1) [] = (r2, md, ids2)"
      by (cases "append_records e ?arr src (length (metadata S1)) 0 ?chunks (metadata S1) []")
    from assms(2) u None a have S': "S' = S1\<lparr>metadata := md\<rparr>"
      by (auto simp: add_documents_def Let_def split: option.splits)
    have "index S1 \<noteq> None \<or> \<not> FAISS_AVAILABLE e"
      using update_index_index [of e ?arr S S1] u None by auto
    then show ?thesis unfolding S' by (auto simp: consistent_def)
  qed
qed

lemma save_index_files:
  "metadata_file (save_index e S fs) = Stored (metadata S)"
  "index_file (save_index e S fs) =
     (case (if FAISS_AVAILABLE e then index S else None) of
        Some i \<Rightarrow> Stored i
      | None \<Rightarrow> index_file fs)"
  by (simp_all add: save_index_def split: option.splits)

lemma init_save_index:
  assumes "consistent e S fs"
  shows "FAISS_AVAILABLE e \<and> index S \<noteq> None \<Longrightarrow> init e (save_index e S fs) = S"
    and "\<not> FAISS_AVAILABLE e \<Longrightarrow> init e (save_index e S fs) = S\<lparr>index := None\<rparr>"
    and "metadata S = [] \<Longrightarrow> metadata (init e (save_index e S fs)) = []"
    and "FAISS_AVAILABLE e \<and> index S = None \<and> metadata S \<noteq> [] \<Longrightarrow> init e (save_index e S fs) = S"
  using assms
  by (auto simp: init_def load_index_def Let_def consistent_def save_index_files
      split: on_disk.splits option.splits)

text \<open>
  Claim C4. For every object that is consistent with its files, every query and every
  \<open>k\<close>: after \<open>save_index\<close>, a new object built from the files (\<open>__init__\<close>, which
  runs \<open>load_index\<close>) answers \<open>search\<close> with the same results, in the same order and
  with the same scores, errors included.
\<close>

theorem save_load_search:
  assumes "consistent e S fs"
  shows "search e q k (init e (save_index e S fs)) = search e q k S"
proof (cases "metadata S = []")
  case True
  with init_save_index(3) [OF assms] show ?thesis by (simp add: search_def)
next
  case False
  show ?thesis
  proof (cases "FAISS_AVAILABLE e")
    case True
    with init_save_index(1,4) [OF assms] False have "init e (save_index e S fs) = S"
      by (cases "index S = None") auto
    then show ?thesis by simp
  next
    case f: False
    with init_save_index(2) [OF assms] have "init e (save_index e S fs) = S\<lparr>index := None\<rparr>" by simp
    then show ?thesis using f by (simp add: search_def)
  qed
qed

theorem save_load_search_witness:
  "consistent (example_env True) faiss_store no_files \<and>
   search (example_env True) ''alpha'' 3 (init (example_env True) (save_index (example_env True) faiss_store no_files))
     = search (example_env True) ''alpha'' 3 faiss_store"
proof -
  have c: "consistent (example_env True) faiss_store no_files"
    by (simp add: consistent_def faiss_store_def)
  from save_load_search [OF c] c show ?thesis by blast
qed

text \<open>
  Claim C8, as the code has it. \<open>load_index\<close> has no error result: every exception
  of a read is caught. The object built from the files is the empty one, with no index
  and no records, when no file exists and whenever a read raises: the metadata file
  cannot be read, or FAISS is available and the index file cannot be read. A file that
  is merely missing does not empty the object, and without FAISS the index file is not
  read at all: the metadata file that is there gives the records, without an index when
  the index file is missing or FAISS is unavailable, and with FAISS an index file that
  is there gives the index, with no records when the metadata file is missing.
\<close>

theorem load_index_outcome:
  "(index_file fs = Missing \<and> metadata_file fs = Missing \<longrightarrow>
      init e fs = \<lparr>index = None, metadata = []\<rparr>) \<and>
   (metadata_file fs = Corrupt \<longrightarrow> init e fs = \<lparr>index = None, metadata = []\<rparr>) \<and>
   (FAISS_AVAILABLE e \<and> index_file fs = Corrupt \<longrightarrow> init e fs = \<lparr>index = None, metadata = []\<rparr>) \<and>
   (\<not> FAISS_AVAILABLE e \<and> metadata_file fs = Missing \<longrightarrow>
      init e fs = \<lparr>index = None, metadata = []\<rparr>) \<and>
   ((\<not> FAISS_AVAILABLE e \<or> index_file fs = Missing) \<and> metadata_file fs = Stored m \<longrightarrow>
      init e fs = \<lparr>index = None, metadata = m\<rparr>) \<and>
   (FAISS_AVAILABLE e \<and> index_file fs = Stored i \<and> metadata_file fs = Missing \<longrightarrow>
      init e fs = \<lparr>index = Some i, metadata = []\<rparr>) \<and>
   (FAISS_AVAILABLE e \<and> index_file fs = Stored i \<and> metadata_file fs = Stored m \<longrightarrow>
      init e fs = \<lparr>index = Some i, metadata = m\<rparr>)"
  by (auto simp: init_def load_index_def Let_def split: on_disk.splits)

theorem load_index_outcome_witness:
  "index_file no_files = Missing \<and> metadata_file no_files = Missing \<and>
   init (example_env True) no_files = \<lparr>index = None, metadata = []\<rparr> \<and>
   metadata_file corrupt_files = Corrupt \<and>
   init (example_env True) corrupt_files = \<lparr>index = None, metadata = []\<rparr> \<and>
   FAISS_AVAILABLE (example_env True) \<and> index_file corrupt_index = Corrupt \<and>
   init (example_env True) corrupt_index = \<lparr>index = None, metadata = []\<rparr> \<and>
   \<not> FAISS_AVAILABLE (example_env False) \<and> metadata_file only_index = Missing \<and>
   init (example_env False) only_index = \<lparr>index = None, metadata = []\<rparr> \<and>
   index_file only_metadata = Missing \<and> metadata_file only_metadata = Stored (metadata two_docs) \<and>
   init (example_env True) only_metadata = \<lparr>index = None, metadata = metadata two_docs\<rparr> \<and>
   index_file only_index = Stored \<lparr>index_d = 2, index_xb = [[1, 0]]\<rparr> \<and>
   init (example_env True) only_index
     = \<lparr>index = Some \<lparr>index_d = 2, index_xb = [[1, 0]]\<rparr>, metadata = []\<rparr> \<and>
   index_file both_files = Stored \<lparr>index_d = 2, index_xb = [[1, 0]]\<rparr> \<and>
   metadata_file both_files = Stored (metadata faiss_store) \<and>
   init (example_env True) both_files
     = \<lparr>index = Some \<lparr>index_d = 2, index_xb = [[1, 0]]\<rparr>, metadata = metadata faiss_store\<rparr>"
proof -
  have a: "index_file no_files = Missing" "metadata_file no_files = Missing"
    by (simp_all add: no_files_def)
  have b: "metadata_file corrupt_files = Corrupt" by (simp add: corrupt_files_def)
  have c: "FAISS_AVAILABLE (example_env True)" "index_file corrupt_index = Corrupt"
    by (simp_all add: example_env_def corrupt_index_def)
  have d: "\<not> FAISS_AVAILABLE (example_env False)" "metadata_file only_index = Missing"
    by (simp_all add: example_env_def only_index_def)
  have f: "index_file only_metadata = Missing"
      "metadata_file only_metadata = Stored (metadata two_docs)"
    by (simp_all add: only_metadata_def)
  have g: "index_file only_index = Stored \<lparr>index_d = 2, index_xb = [[1, 0]]\<rparr>"
    by (simp add: only_index_def)
  have h: "index_file both_files = Stored \<lparr>index_d = 2, index_xb = [[1, 0]]\<rparr>"
      "metadata_file both_files = Stored (metadata faiss_store)"
    by (simp_all add: both_files_def)
  from load_index_outcome [of no_files "example_env True"] a
  have 1: "init (example_env True) no_files = \<lparr>index = None, metadata = []\<rparr>" by blast
  from load_index_outcome [of corrupt_files "example_env True"] b
  have 2: "init (example_env True) corrupt_files = \<lparr>index = None, metadata = []\<rparr>" by blast
  from load_index_outcome [of corrupt_index "example_env True"] c
  have 3: "init (example_env True) corrupt_index = \<lparr>index = None, metadata = []\<rparr>" by blast
  from load_index_outcome [of only_index "example_env False"] d
  have 4: "init (example_env False) only_index = \<lparr>index = None, metadata = []\<rparr>" by blast
  from load_index_outcome [of only_metadata "example_env True" "metadata two_docs"] f
  have 5: "init (example_env True) only_metadata = \<lparr>index = None, metadata = metadata two_docs\<rparr>"
    by blast
  from load_index_outcome [of only_index "example_env True" _ "\<lparr>index_d = 2, index_xb = [[1, 0]]\<rparr>"] c(1) g d(2)
  have 6: "init (example_env True) only_index
     = \<lparr>index = Some \<lparr>index_d = 2, index_xb = [[1, 0]]\<rparr>, metadata = []\<rparr>" by blast
  from load_index_outcome [of both_files "example_env True" "metadata faiss_store"
      "\<lparr>index_d = 2, index_xb = [[1, 0]]\<rparr>"] c(1) h
  have 7: "init (example_env True) both_files
     = \<lparr>index = Some \<lparr>index_d = 2, index_xb = [[1, 0]]\<rparr>, metadata = metadata faiss_store\<rparr>"
    by blast
  from a b c d f g h 1 2 3 4 5 6 7 show ?thesis by blast
qed

text \<open>
  Claim C8 as it is stated fails: with FAISS available and the index file missing, the
  records of the metadata file are loaded; with the metadata file missing, the index of
  the index file is loaded; without FAISS a corrupt index file is not read and the
  records are loaded.
\<close>

theorem load_index_outcome_counterexample:
  "FAISS_AVAILABLE (example_env True) \<and>
   index_file only_metadata = Missing \<and>
   init (example_env True) only_metadata = \<lparr>index = None, metadata = metadata two_docs\<rparr> \<and>
   length (metadata (init (example_env True) only_metadata)) = 2 \<and>
   metadata_file only_index = Missing \<and>
   index (init (example_env True) only_index) = Some \<lparr>index_d = 2, index_xb = [[1, 0]]\<rparr> \<and>
   \<not> FAISS_AVAILABLE (example_env False) \<and>
   index_file corrupt_index = Corrupt \<and>
   length (metadata (init (example_env False) corrupt_index)) = 2"
  by (simp add: init_def load_index_def Let_def example_env_def only_metadata_def only_index_def
      corrupt_index_def two_docs_def)

section \<open>Search leaves the store as it is\<close>

lemma frame_refl: "frame h h"
  by (simp add: frame_def)

lemma frame_trans: "frame h h1 \<Longrightarrow> frame h1 h2 \<Longrightarrow> frame h h2"
  by (auto simp: frame_def)

lemma frame_new_dict: "new_dict d h = (r, h') \<Longrightarrow> frame h h' \<and> r = next_ref h \<and> next_ref h' = Suc r"
  by (auto simp: new_dict_def frame_def)

lemma frame_dict_pop: "next_ref h0 \<le> r \<Longrightarrow> frame h0 h \<Longrightarrow> frame h0 (dict_pop r key h)"
  by (auto simp: dict_pop_def frame_def)

lemma frame_dict_set: "next_ref h0 \<le> r \<Longrightarrow> frame h0 h \<Longrightarrow> frame h0 (dict_set r key v h)"
  by (auto simp: dict_set_def frame_def)

lemma frame_score_docs_obj:
  "score_docs_obj ql md h acc = (res, h') \<Longrightarrow> frame h h'"
proof (induction md arbitrary: h acc)
  case Nil
  then show ?case by (simp add: frame_refl)
next
  case (Cons doc docs)
  show ?case
  proof (cases "cells h doc ''content''")
    case None
    with Cons.prems show ?thesis by (simp add: frame_refl)
  next
    case (Some v)
    show ?thesis
    proof (cases v)
      case (PyStr c)
      show ?thesis
      proof (cases "keyword_score ql (lower c) > 0")
        case True
        show ?thesis
        proof (cases "cells h doc ''source''")
          case None
          with Cons.prems Some PyStr True show ?thesis by (simp add: frame_refl)
        next
          case (Some src)
          obtain r h1 where n: "new_dict [''content'' \<mapsto> PyStr c, ''source'' \<mapsto> src,
                          ''score'' \<mapsto> PyFloat (real_of_int (keyword_score ql (lower c)))] h = (r, h1)"
            by (cases "new_dict [''content'' \<mapsto> PyStr c, ''source'' \<mapsto> src,
                          ''score'' \<mapsto> PyFloat (real_of_int (keyword_score ql (lower c)))] h")
          with Cons.prems \<open>cells h doc ''content'' = Some v\<close> PyStr True Some
          have "score_docs_obj ql docs h1 (acc @ [r]) = (res, h')" by simp
          from Cons.IH [OF this] frame_new_dict [OF n] show ?thesis by (blast intro: frame_trans)
        qed
      next
        case False
        with Cons.prems Some PyStr have "score_docs_obj ql docs h acc = (res, h')" by simp
        from Cons.IH [OF this] show ?thesis .
      qed
    qed (use Cons.prems Some in \<open>simp_all add: frame_refl\<close>)
  qed
qed

lemma frame_unscored_obj:
  "unscored_obj md h results = (res, h') \<Longrightarrow> frame h h'"
proof (induction md arbitrary: h results)
  case Nil
  then show ?case by (simp add: frame_refl)
next
  case (Cons doc docs)
  show ?case
  proof (cases "cells h doc ''content''")
    case None
    with Cons.prems show ?thesis by (simp add: frame_refl)
  next
    case c: (Some c)
    show ?thesis
    proof (cases "cells h doc ''source''")
      case None
      with Cons.prems c show ?thesis by (simp add: frame_refl)
    next
      case (Some src)
      obtain r h1 where n: "new_dict [''content'' \<mapsto> c, ''source'' \<mapsto> src, ''score'' \<mapsto> PyFloat 0] h = (r, h1)"
        by (cases "new_dict [''content'' \<mapsto> c, ''source'' \<mapsto> src, ''score'' \<mapsto> PyFloat 0] h")
      with Cons.prems c Some have "unscored_obj docs h1 (results @ [r]) = (res, h')" by simp
      from Cons.IH [OF this] frame_new_dict [OF n] show ?thesis by (blast intro: frame_trans)
    qed
  qed
qed

lemma frame_keyword_search_obj:
  "keyword_search_obj q k md h = (res, h') \<Longrightarrow> frame h h'"
proof -
  assume a: "keyword_search_obj q k md h = (res, h')"
  obtain r1 h1 where s: "score_docs_obj (lower q) md h [] = (r1, h1)"
    by (cases "score_docs_obj (lower q) md h []")
  from frame_score_docs_obj [OF s] have f1: "frame h h1" .
  show ?thesis
  proof (cases r1)
    case (Inl err)
    with a s f1 show ?thesis by (simp add: keyword_search_obj_def)
  next
    case (Inr acc)
    show ?thesis
    proof (cases "slice_to k (sort_key (\<lambda>x. - score_key h1 x) acc) = []")
      case True
      with a s Inr have "unscored_obj (slice_to k md) h1 [] = (res, h')"
        by (simp add: keyword_search_obj_def)
      from frame_unscored_obj [OF this] f1 show ?thesis by (blast intro: frame_trans)
    next
      case False
      with a s Inr f1 show ?thesis by (simp add: keyword_search_obj_def)
    qed
  qed
qed

lemma frame_retrieve_obj:
  "retrieve_obj md found h results = (res, h') \<Longrightarrow> frame h h'"
proof (induction found arbitrary: h results)
  case Nil
  then show ?case by (simp add: frame_refl)
next
  case (Cons p rest)
  obtain distance idx where p: "p = (distance, idx)" by (cases p)
  show ?case
  proof (cases "idx < int (length md)")
    case False
    with Cons.prems p have "retrieve_obj md rest h results = (res, h')" by simp
    from Cons.IH [OF this] show ?thesis .
  next
    case True
    show ?thesis
    proof (cases "py_nth md idx")
      case (Inl err)
      with Cons.prems p True show ?thesis by (simp add: frame_refl)
    next
      case (Inr doc)
      obtain result h1 where c: "dict_copy doc h = (result, h1)" by (cases "dict_copy doc h")
      let ?h3 = "dict_set result ''score'' (PyFloat distance) (dict_pop result ''vector'' h1)"
      from c have n: "frame h h1 \<and> result = next_ref h \<and> next_ref h1 = Suc result"
        unfolding dict_copy_def by (rule frame_new_dict)
      then have "frame h ?h3"
        by (simp add: frame_dict_pop frame_dict_set)
      moreover from Cons.prems p True Inr c
      have "retrieve_obj md rest ?h3 (results @ [result]) = (res, h')" by simp
      from Cons.IH [OF this] have "frame ?h3 h'" .
      ultimately show ?thesis by (blast intro: frame_trans)
    qed
  qed
qed

lemma search_obj_frame:
  "search_obj e q k st = (res, st') \<Longrightarrow>
     self_index st' = self_index st \<and> self_metadata st' = self_metadata st \<and>
     frame (objects st) (objects st')"
proof -
  assume a: "search_obj e q k st = (res, st')"
  show ?thesis
  proof (cases "length (self_metadata st) = 0")
    case True
    obtain r h where n: "new_dict (sentinel_dict q) (objects st) = (r, h)"
      by (cases "new_dict (sentinel_dict q) (objects st)")
    with a True have "st' = st\<lparr>objects := h\<rparr>" by (simp add: search_obj_def)
    with frame_new_dict [OF n] show ?thesis by simp
  next
    case False
    let ?k = "min k (int (length (self_metadata st)))"
    show ?thesis
    proof (cases "if FAISS_AVAILABLE e then self_index st else None")
      case None
      obtain r h where s: "keyword_search_obj q ?k (self_metadata st) (objects st) = (r, h)"
        by (cases "keyword_search_obj q ?k (self_metadata st) (objects st)")
      with a False None have "st' = st\<lparr>objects := h\<rparr>" by (simp add: search_obj_def Let_def)
      with frame_keyword_search_obj [OF s] show ?thesis by simp
    next
      case (Some i)
      show ?thesis
      proof (cases "index_search e i (query_vector e q (int (index_d i))) ?k")
        case None
        with a False Some have "st' = st" by (simp add: search_obj_def Let_def)
        then show ?thesis by (simp add: frame_refl)
      next
        case found: (Some found)
        obtain r h where s: "retrieve_obj (self_metadata st) found (objects st) [] = (r, h)"
          by (cases "retrieve_obj (self_metadata st) found (objects st) []")
        with a False Some found have "st' = st\<lparr>objects := h\<rparr>" by (simp add: search_obj_def Let_def)
        with frame_retrieve_obj [OF s] show ?thesis by simp
      qed
    qed
  qed
qed

lemma holds_frame: "holds h0 refs docs \<Longrightarrow> frame h0 h \<Longrightarrow> holds h refs docs"
  unfolding holds_def frame_def
  by (erule list_all2_mono) auto

lemma score_key_result: "score_key h r = score (result_of (cells h r))"
  by (simp add: score_key_def result_of_def)

lemma map_insort_key: "map f (insort_key (\<lambda>x. g (f x)) x xs) = insort_key g (f x) (map f xs)"
  by (induction xs) simp_all

lemma map_sort_key: "map f (sort_key (\<lambda>x. g (f x)) xs) = sort_key g (map f xs)"
  by (induction xs) (simp_all add: map_insort_key)

lemma slice_to_map: "slice_to k (map f xs) = map f (slice_to k xs)"
  by (simp add: slice_to_def take_map)

lemma results_stable:
  assumes "frame h h'" and "\<forall>r\<in>set acc. r < next_ref h"
  shows "map (\<lambda>r. result_of (cells h' r)) acc = map (\<lambda>r. result_of (cells h r)) acc"
  using assms by (auto simp: frame_def)

lemma score_docs_obj_refines:
  assumes "holds h refs docs" and "\<forall>r\<in>set acc. r < next_ref h"
  shows "\<exists>rs h'. score_docs_obj ql refs h acc = (Inr rs, h') \<and> frame h h' \<and>
           (\<forall>r\<in>set rs. r < next_ref h') \<and>
           map (\<lambda>r. result_of (cells h' r)) rs
             = map (\<lambda>r. result_of (cells h r)) acc @ score_docs ql docs"
  using assms
proof (induction docs arbitrary: refs h acc)
  case Nil
  then show ?case by (simp add: holds_def frame_refl)
next
  case (Cons d docs)
  from Cons.prems(1) obtain r refs' where refs: "refs = r # refs'"
    and r: "r < next_ref h" "cells h r = dict_of d" and rest: "holds h refs' docs"
    by (auto simp: holds_def list_all2_Cons2)
  from r(2) have c: "cells h r ''content'' = Some (PyStr (content d))"
      "cells h r ''source'' = Some (PyStr (source d))"
    by (simp_all add: dict_of_def)
  show ?case
  proof (cases "keyword_score ql (lower (content d)) > 0")
    case False
    with refs c have "score_docs_obj ql refs h acc = score_docs_obj ql refs' h acc" by simp
    moreover from False have "score_docs ql (d # docs) = score_docs ql docs" by (simp add: Let_def)
    ultimately show ?thesis using Cons.IH [OF rest Cons.prems(2)] by simp
  next
    case True
    let ?new = "[''content'' \<mapsto> PyStr (content d), ''source'' \<mapsto> PyStr (source d),
                 ''score'' \<mapsto> PyFloat (real_of_int (keyword_score ql (lower (content d))))]"
    obtain n h1 where n: "new_dict ?new h = (n, h1)" by (cases "new_dict ?new h")
    then have f1: "frame h h1" and nn: "n = next_ref h" "next_ref h1 = Suc n"
      using frame_new_dict by blast+
    from n have cn: "cells h1 n = ?new" by (auto simp: new_dict_def)
    from True refs c n
    have step: "score_docs_obj ql refs h acc = score_docs_obj ql refs' h1 (acc @ [n])" by simp
    have acc1: "\<forall>r\<in>set (acc @ [n]). r < next_ref h1"
      using Cons.prems(2) nn by auto
    from Cons.IH [OF holds_frame [OF rest f1] acc1, of ] obtain rs h' where
      ih: "score_docs_obj ql refs' h1 (acc @ [n]) = (Inr rs, h')" "frame h1 h'"
        "\<forall>r\<in>set rs. r < next_ref h'"
        "map (\<lambda>r. result_of (cells h' r)) rs
           = map (\<lambda>r. result_of (cells h1 r)) (acc @ [n]) @ score_docs ql docs"
      by blast
    have "map (\<lambda>r. result_of (cells h1 r)) acc = map (\<lambda>r. result_of (cells h r)) acc"
      using results_stable [OF f1 Cons.prems(2)] .
    moreover have "result_of (cells h1 n) = \<lparr>res_id = None, res_content = content d,
        res_source = source d, score = real_of_int (keyword_score ql (lower (content d)))\<rparr>"
      by (simp add: cn result_of_def)
    ultimately have "map (\<lambda>r. result_of (cells h' r)) rs
        = map (\<lambda>r. result_of (cells h r)) acc @ score_docs ql (d # docs)"
      using ih(4) True by (simp add: Let_def)
    with step ih f1 show ?thesis by (auto intro: frame_trans)
  qed
qed

lemma unscored_obj_refines:
  assumes "holds h refs docs" and "\<forall>r\<in>set acc. r < next_ref h"
  shows "\<exists>rs h'. unscored_obj refs h acc = (Inr rs, h') \<and> frame h h' \<and>
           map (\<lambda>r. result_of (cells h' r)) rs
             = map (\<lambda>r. result_of (cells h r)) acc @ map unscored docs"
  using assms
proof (induction docs arbitrary: refs h acc)
  case Nil
  then show ?case by (simp add: holds_def frame_refl)
next
  case (Cons d docs)
  from Cons.prems(1) obtain r refs' where refs: "refs = r # refs'"
    and r: "r < next_ref h" "cells h r = dict_of d" and rest: "holds h refs' docs"
    by (auto simp: holds_def list_all2_Cons2)
  from r(2) have c: "cells h r ''content'' = Some (PyStr (content d))"
      "cells h r ''source'' = Some (PyStr (source d))"
    by (simp_all add: dict_of_def)
  let ?new = "[''content'' \<mapsto> PyStr (content d), ''source'' \<mapsto> PyStr (source d), ''score'' \<mapsto> PyFloat 0]"
  obtain n h1 where n: "new_dict ?new h = (n, h1)" by (cases "new_dict ?new h")
  then have f1: "frame h h1" and nn: "n = next_ref h" "next_ref h1 = Suc n"
    using frame_new_dict by blast+
  from n have cn: "cells h1 n = ?new" by (auto simp: new_dict_def)
  from refs c n have step: "unscored_obj refs h acc = unscored_obj refs' h1 (acc @ [n])" by simp
  have acc1: "\<forall>r\<in>set (acc @ [n]). r < next_ref h1"
    using Cons.prems(2) nn by auto
  from Cons.IH [OF holds_frame [OF rest f1] acc1] obtain rs h' where
    ih: "unscored_obj refs' h1 (acc @ [n]) = (Inr rs, h')" "frame h1 h'"
      "map (\<lambda>r. result_of (cells h' r)) rs
         = map (\<lambda>r. result_of (cells h1 r)) (acc @ [n]) @ map unscored docs"
    by blast
  have "map (\<lambda>r. result_of (cells h1 r)) acc = map (\<lambda>r. result_of (cells h r)) acc"
    using results_stable [OF f1 Cons.prems(2)] .
  moreover have "result_of (cells h1 n) = unscored d"
    by (simp add: cn result_of_def unscored_def)
  ultimately have "map (\<lambda>r. result_of (cells h' r)) rs
      = map (\<lambda>r. result_of (cells h r)) acc @ map unscored (d # docs)"
    using ih(3) by simp
  with step ih f1 show ?case by (auto intro: frame_trans)
qed

lemma holds_take: "holds h refs docs \<Longrightarrow> holds h (slice_to k refs) (slice_to k docs)"
proof -
  assume a: "holds h refs docs"
  then have "length refs = length docs" by (auto simp: holds_def dest: list_all2_lengthD)
  with a show ?thesis by (auto simp: holds_def slice_to_def intro: list_all2_takeI)
qed

lemma keyword_search_obj_refines:
  assumes "holds h refs docs"
  shows "\<exists>rs h'. keyword_search_obj q k refs h = (Inr rs, h') \<and>
           map (\<lambda>r. result_of (cells h' r)) rs = keyword_search q k docs"
proof -
  from score_docs_obj_refines [OF assms, of "[]" "lower q"] obtain sc h1 where
    s: "score_docs_obj (lower q) refs h [] = (Inr sc, h1)" "frame h h1"
      "\<forall>r\<in>set sc. r < next_ref h1"
      "map (\<lambda>r. result_of (cells h1 r)) sc = score_docs (lower q) docs"
    by auto
  let ?sorted = "sort_key (\<lambda>x. - score_key h1 x) sc"
  have sorted: "map (\<lambda>r. result_of (cells h1 r)) ?sorted
      = sort_key (\<lambda>x. - score x) (score_docs (lower q) docs)"
    using map_sort_key [of "\<lambda>r. result_of (cells h1 r)" "\<lambda>x. - score x" sc] s(4)
    by (simp add: score_key_result)
  then have sliced: "map (\<lambda>r. result_of (cells h1 r)) (slice_to k ?sorted)
      = slice_to k (sort_key (\<lambda>x. - score x) (score_docs (lower q) docs))"
    by (simp add: slice_to_map [symmetric])
  show ?thesis
  proof (cases "slice_to k ?sorted = []")
    case False
    with sliced have "slice_to k (sort_key (\<lambda>x. - score x) (score_docs (lower q) docs)) \<noteq> []"
      by (metis map_is_Nil_conv)
    with False s(1) sliced show ?thesis
      by (simp add: keyword_search_obj_def keyword_search_def Let_def)
  next
    case True
    with sliced have e: "slice_to k (sort_key (\<lambda>x. - score x) (score_docs (lower q) docs)) = []"
      by simp
    from unscored_obj_refines [OF holds_take [OF holds_frame [OF assms s(2)], of k], of "[]"]
    obtain rs h' where "unscored_obj (slice_to k refs) h1 [] = (Inr rs, h')"
        "map (\<lambda>r. result_of (cells h' r)) rs = map unscored (slice_to k docs)"
      by auto
    with True e s(1) show ?thesis
      by (simp add: keyword_search_obj_def keyword_search_def Let_def)
  qed
qed

lemma py_nth_holds:
  assumes "holds h refs docs"
  shows "(py_nth refs idx = Inl IndexError \<and> py_nth docs idx = Inl IndexError) \<or>
         (\<exists>r d. py_nth refs idx = Inr r \<and> py_nth docs idx = Inr d \<and> r < next_ref h \<and>
                 cells h r = dict_of d)"
proof -
  from assms have l: "length refs = length docs" and
    n: "\<And>j. j < length refs \<Longrightarrow> refs ! j < next_ref h \<and> cells h (refs ! j) = dict_of (docs ! j)"
    by (auto simp: holds_def dest: list_all2_lengthD list_all2_nthD)
  show ?thesis
  proof (cases "0 \<le> idx \<and> idx < int (length refs)")
    case True
    then have "nat idx < length refs" by linarith
    from n [OF this] True l show ?thesis by (simp add: py_nth_def)
  next
    case False
    show ?thesis
    proof (cases "idx < 0 \<and> - int (length refs) \<le> idx")
      case True
      then have "nat (int (length refs) + idx) < length refs" by linarith
      from n [OF this] True l show ?thesis by (simp add: py_nth_def)
    next
      case f: False
      with False l show ?thesis by (auto simp: py_nth_def)
    qed
  qed
qed

lemma retrieve_obj_refines:
  assumes "holds h refs docs" and "\<forall>r\<in>set acc. r < next_ref h"
  shows "\<exists>res h'. retrieve_obj refs found h acc = (res, h') \<and>
           same_outcome h' res (retrieve docs found (map (\<lambda>r. result_of (cells h r)) acc))"
  using assms
proof (induction found arbitrary: h acc)
  case Nil
  then show ?case by simp
next
  case (Cons p rest)
  obtain distance idx where p: "p = (distance, idx)" by (cases p)
  from Cons.prems(1) have l: "length refs = length docs"
    by (auto simp: holds_def dest: list_all2_lengthD)
  show ?case
  proof (cases "idx < int (length refs)")
    case False
    with p l Cons.IH [OF Cons.prems] show ?thesis by simp
  next
    case True
    from py_nth_holds [OF Cons.prems(1), of idx] show ?thesis
    proof
      assume "py_nth refs idx = Inl IndexError \<and> py_nth docs idx = Inl IndexError"
      with p l True show ?thesis by simp
    next
      assume "\<exists>r d. py_nth refs idx = Inr r \<and> py_nth docs idx = Inr d \<and> r < next_ref h \<and>
                 cells h r = dict_of d"
      then obtain r d where rd: "py_nth refs idx = Inr r" "py_nth docs idx = Inr d"
          "r < next_ref h" "cells h r = dict_of d"
        by blast
      obtain n h1 where c: "dict_copy r h = (n, h1)" by (cases "dict_copy r h")
      let ?h3 = "dict_set n ''score'' (PyFloat distance) (dict_pop n ''vector'' h1)"
      from c have f1: "frame h h1" and nn: "n = next_ref h" "next_ref h1 = Suc n"
        unfolding dict_copy_def using frame_new_dict by blast+
      from c rd(4) have cn: "cells h1 n = dict_of d" by (auto simp: dict_copy_def new_dict_def)
      have f3: "frame h ?h3" using f1 nn by (simp add: frame_dict_pop frame_dict_set)
      have n3: "next_ref ?h3 = Suc n" using nn by (simp add: dict_set_def dict_pop_def)
      have cell: "result_of (cells ?h3 n) = \<lparr>res_id = Some (doc_id d), res_content = content d,
          res_source = source d, score = distance\<rparr>"
        by (simp add: dict_set_def dict_pop_def cn dict_of_def result_of_def)
      have acc1: "\<forall>r\<in>set (acc @ [n]). r < next_ref ?h3"
        using Cons.prems(2) nn n3 by auto
      from Cons.IH [OF holds_frame [OF Cons.prems(1) f3] acc1] obtain res h' where
        ih: "retrieve_obj refs rest ?h3 (acc @ [n]) = (res, h')"
          "same_outcome h' res (retrieve docs rest (map (\<lambda>r. result_of (cells ?h3 r)) (acc @ [n])))"
        by blast
      have "map (\<lambda>r. result_of (cells ?h3 r)) acc = map (\<lambda>r. result_of (cells h r)) acc"
        using results_stable [OF f3 Cons.prems(2)] .
      with cell have m: "map (\<lambda>r. result_of (cells ?h3 r)) (acc @ [n])
          = map (\<lambda>r. result_of (cells h r)) acc @ [\<lparr>res_id = Some (doc_id d), res_content = content d,
          res_source = source d, score = distance\<rparr>]"
        by simp
      from p True rd c have "retrieve_obj refs (p # rest) h acc = retrieve_obj refs rest ?h3 (acc @ [n])"
        by simp
      with ih(1) have e1: "retrieve_obj refs (p # rest) h acc = (res, h')" by (simp only:)
      from p True l rd have e2: "retrieve docs (p # rest) (map (\<lambda>r. result_of (cells h r)) acc)
          = retrieve docs rest (map (\<lambda>r. result_of (cells h r)) acc @ [\<lparr>res_id = Some (doc_id d),
              res_content = content d, res_source = source d, score = distance\<rparr>])"
        by simp
      from ih(2) have "same_outcome h' res (retrieve docs rest (map (\<lambda>r. result_of (cells h r)) acc
          @ [\<lparr>res_id = Some (doc_id d), res_content = content d, res_source = source d,
               score = distance\<rparr>]))"
        unfolding m .
      with e1 show ?thesis unfolding e2 by blast
    qed
  qed
qed

lemma search_obj_refines:
  assumes "represents st S"
  shows "\<exists>res st'. search_obj e q k st = (res, st') \<and>
           same_outcome (objects st') res (search e q k S)"
proof -
  from assms have i: "self_index st = index S" and h: "holds (objects st) (self_metadata st) (metadata S)"
    by (simp_all add: represents_def)
  from h have l: "length (self_metadata st) = length (metadata S)"
    by (auto simp: holds_def dest: list_all2_lengthD)
  show ?thesis
  proof (cases "length (metadata S) = 0")
    case True
    obtain r h1 where n: "new_dict (sentinel_dict q) (objects st) = (r, h1)"
      by (cases "new_dict (sentinel_dict q) (objects st)")
    then have "result_of (cells h1 r) = sentinel q"
      by (auto simp: new_dict_def sentinel_dict_def result_of_def sentinel_def)
    with True l n show ?thesis by (simp add: search_obj_def search_def)
  next
    case False
    let ?k = "min k (int (length (metadata S)))"
    show ?thesis
    proof (cases "if FAISS_AVAILABLE e then index S else None")
      case None
      from keyword_search_obj_refines [OF h, of q ?k] obtain rs h' where
        "keyword_search_obj q ?k (self_metadata st) (objects st) = (Inr rs, h')"
        "map (\<lambda>r. result_of (cells h' r)) rs = keyword_search q ?k (metadata S)"
        by blast
      with False None l i show ?thesis
        by (auto simp: search_obj_def search_def Let_def split: if_splits)
    next
      case (Some ix)
      show ?thesis
      proof (cases "index_search e ix (query_vector e q (int (index_d ix))) ?k")
        case None
        with False Some l i show ?thesis
          by (auto simp: search_obj_def search_def Let_def split: if_splits)
      next
        case found: (Some found)
        from retrieve_obj_refines [OF h, of "[]" found] obtain res h' where
          "retrieve_obj (self_metadata st) found (objects st) [] = (res, h')"
          "same_outcome h' res (retrieve (metadata S) found [])"
          by auto
        with False Some found l i show ?thesis
          by (auto simp: search_obj_def search_def Let_def split: if_splits)
      qed
    qed
  qed
qed

text \<open>
  Claim C10. Whatever \<open>search\<close> returns, results or an exception, it leaves
  \<open>self.index\<close> and the list \<open>self.metadata\<close> as they were, and every dictionary that
  existed before the call holds the entries it held: the id, content, source and vector
  of every record are as before, and a store that represents a state still represents
  it. All writes of \<open>search\<close> go to dictionaries it has allocated itself. By
  \<open>search_obj_refines\<close> the results are those of \<open>search\<close> on values.
\<close>

theorem search_leaves_store:
  assumes "search_obj e q k st = (res, st')"
  shows "self_index st' = self_index st \<and> self_metadata st' = self_metadata st \<and>
         (\<forall>r<next_ref (objects st). cells (objects st') r = cells (objects st) r) \<and>
         (\<forall>S. represents st S \<longrightarrow> represents st' S)"
proof -
  from search_obj_frame [OF assms] have
    f: "self_index st' = self_index st" "self_metadata st' = self_metadata st"
    and fr: "frame (objects st) (objects st')"
    by simp_all
  have "represents st' S" if "represents st S" for S
    using that f holds_frame [OF _ fr] by (simp add: represents_def)
  with f fr show ?thesis by (simp add: frame_def)
qed

lemma example_store_represents: "represents example_store two_docs"
  by (simp add: represents_def holds_def example_store_def two_docs_def)

theorem search_leaves_store_witness:
  "search_obj (example_env False) ''alpha'' 2 example_store = (fst example_search, snd example_search) \<and>
   self_index (snd example_search) = self_index example_store \<and>
   self_metadata (snd example_search) = self_metadata example_store \<and>
   (1::nat) < next_ref (objects example_store) \<and>
   cells (objects (snd example_search)) 0 = cells (objects example_store) 0 \<and>
   cells (objects (snd example_search)) 1 = cells (objects example_store) 1 \<and>
   represents example_store two_docs \<and> represents (snd example_search) two_docs"
proof -
  have h: "search_obj (example_env False) ''alpha'' 2 example_store
      = (fst example_search, snd example_search)"
    by (simp add: example_search_def)
  have n: "(1::nat) < next_ref (objects example_store)" "(0::nat) < next_ref (objects example_store)"
    by (simp_all add: example_store_def)
  from search_leaves_store [OF h] n example_store_represents h show ?thesis by blast
qed

lemma example_search_results:
  "fst example_search = Inr [2] \<and>
   result_of (cells (objects (snd example_search)) 2)
     = \<lparr>res_id = None, res_content = ''Alpha'', res_source = ''a.txt'', score = 1\<rparr>"
  by (simp add: example_search_def search_obj_def example_store_def example_env_def Let_def
      keyword_search_obj_def two_docs_def dict_of_def new_dict_def keyword_score_def lower_def
      lower_char_def split_ws_def is_space_def sublist_code score_key_def slice_to_def result_of_def)

end
